theory Spec2Isabelle
  imports Main "HOL-Library.AList"
begin

text \<open>
  The entity status and status history code of package \<open>state\<close>: the functions
  \<open>mapKeys\<close>, \<open>escapeKeys\<close>, \<open>unescapeKeys\<close>, \<open>getStatus\<close>, \<open>setStatus\<close>,
  \<open>updateStatusSource\<close>, \<open>probablyUpdateStatusHistory\<close>, \<open>statusHistory\<close>,
  \<open>PruneStatusHistory\<close>, \<open>getOldestTimeToKeep\<close> and \<open>getEntitiesWithStatuses\<close>, which
  the source tree holds in \<^verbatim>\<open>cmd/juju/model/cancelgeneration_test.go\<close> after the test
  suite of that name. The document store (\<open>mgo\<close>), the transaction runner and the
  leadership token are collaborators whose code is elsewhere; what the status code
  relies on from them is modelled in the sections below and marked as such.
\<close>

section \<open>Status data and the key escaper\<close>

text \<open>
  Status data is a Go \<open>map[string]interface{}\<close>. A value stored under a key is either
  another string-keyed map, or anything else. \<open>mapKeys\<close> tests for the first case only
  (\<open>value.(map[string]interface{})\<close>), so every other dynamic type is carried by one of two
  constructors: \<open>VSlice\<close> for a slice of values (which may itself hold maps) and \<open>VScalar\<close>
  for an opaque scalar.

  A map is represented by the list of its entries in the order in which \<open>range\<close> visits
  them; a Go map has each key once, which is \<open>wf_map\<close> below. A nil map and an empty map
  are both the empty list.
\<close>

datatype val =
    VMap "(string \<times> val) list"
  | VSlice "val list"
  | VScalar string

type_synonym gomap = "(string \<times> val) list"

text \<open>
  \<open>mapKeys\<close>: a fresh result map is filled by one pass over the
  input; \<open>result[f(key)] = value\<close> is \<open>AList.update\<close>, which overwrites the entry of a key
  already present and adds a new entry otherwise. \<open>mapKeys_range\<close> is the body of the
  \<open>for ... range\<close> loop, with the result built so far as its last argument.
\<close>

function mapKeys :: "(string \<Rightarrow> string) \<Rightarrow> gomap \<Rightarrow> gomap"
  and mapKeys_range :: "(string \<Rightarrow> string) \<Rightarrow> gomap \<Rightarrow> gomap \<Rightarrow> gomap"
where
  "mapKeys f input = mapKeys_range f input []"
| "mapKeys_range f [] result = result"
| "mapKeys_range f ((key, value) # rest) result =
     mapKeys_range f rest
       (AList.update (f key)
          (case value of VMap submap \<Rightarrow> VMap (mapKeys f submap) | _ \<Rightarrow> value)
          result)"
  by pat_completeness auto
termination
  by (relation "measure (\<lambda>x. case x of
        Inl (f, input) \<Rightarrow> Suc (size_list (size_prod (\<lambda>_. 0) size) input)
      | Inr (f, input, result) \<Rightarrow> size_list (size_prod (\<lambda>_. 0) size) input)")
     auto

text \<open>
  \<open>escapeKeys\<close> and \<open>unescapeKeys\<close> apply \<open>mapKeys\<close> with
  \<open>escapeReplacer.Replace\<close> and \<open>unescapeReplacer.Replace\<close>. The two replacers are
  package variables declared outside the files at hand, so their \<open>Replace\<close> functions
  are the parameters \<open>esc\<close> and \<open>unesc\<close>.
\<close>

definition escapeKeys :: "(string \<Rightarrow> string) \<Rightarrow> gomap \<Rightarrow> gomap" where
  "escapeKeys esc input = mapKeys esc input"

definition unescapeKeys :: "(string \<Rightarrow> string) \<Rightarrow> gomap \<Rightarrow> gomap" where
  "unescapeKeys unesc input = mapKeys unesc input"

text \<open>
  The keys of a map and of the maps nested in it through map values (the keys \<open>mapKeys\<close>
  reaches), and the well-formedness of a Go map: no key twice, at every such level.
\<close>

fun nested_keys :: "gomap \<Rightarrow> string list" where
  "nested_keys [] = []"
| "nested_keys ((key, value) # rest) =
     key # (case value of VMap submap \<Rightarrow> nested_keys submap | _ \<Rightarrow> []) @ nested_keys rest"

fun wf_map :: "gomap \<Rightarrow> bool" where
  "wf_map [] = True"
| "wf_map ((key, value) # rest) =
     (key \<notin> set (map fst rest)
      \<and> (case value of VMap submap \<Rightarrow> wf_map submap | _ \<Rightarrow> True)
      \<and> wf_map rest)"

text \<open>
  What one iteration of the loop stores: the value itself, unless it is a string-keyed
  map, and the entry it stores it under.
\<close>

definition mapValue :: "(string \<Rightarrow> string) \<Rightarrow> val \<Rightarrow> val" where
  "mapValue f v = (case v of VMap submap \<Rightarrow> VMap (mapKeys f submap) | _ \<Rightarrow> v)"

definition mapEntry :: "(string \<Rightarrow> string) \<Rightarrow> string \<times> val \<Rightarrow> string \<times> val" where
  "mapEntry f p = (f (fst p), mapValue f (snd p))"

section \<open>Errors\<close>

text \<open>
  The errors the status code handles. \<open>ErrNotFound\<close> is the sentinel \<open>mgo.ErrNotFound\<close>;
  \<open>StoreError\<close> is any other failure of the document store, with its message;
  \<open>Invalidated\<close> is the failure of a leadership token's check; \<open>NotFound badge\<close> is
  \<open>errors.NotFoundf(badge)\<close> and \<open>Annotated msg e\<close> is \<open>errors.Annotatef(e, msg)\<close>.
  \<open>errors.Trace\<close> only records a source location and keeps message and cause, so it is
  the identity here.
\<close>

datatype error =
    ErrNotFound
  | StoreError string
  | Invalidated
  | NotFound string
  | Annotated string error

fun Cause :: "error \<Rightarrow> error" where
  "Cause (Annotated msg e) = Cause e"
| "Cause e = e"

definition Trace :: "error \<Rightarrow> error" where
  "Trace e = e"

definition IsNotFound :: "error \<Rightarrow> bool" where
  "IsNotFound e = (case Cause e of NotFound badge \<Rightarrow> True | _ \<Rightarrow> False)"

text \<open>\<open>errors.DeferredAnnotatef(&err, msg)\<close>: annotates the error a function returns, if any.\<close>

definition DeferredAnnotatef :: "string \<Rightarrow> error option \<Rightarrow> error option" where
  "DeferredAnnotatef msg err = (case err of None \<Rightarrow> None | Some e \<Rightarrow> Some (Annotated msg e))"

section \<open>Documents and the state\<close>

type_synonym Status = string

text \<open>A time is a count of nanoseconds; \<open>*time.Time\<close> is an optional time.\<close>

type_synonym Time = int

record statusDoc =
  EnvUUID :: string
  Status :: Status
  StatusInfo :: string
  StatusData :: gomap
  Updated :: "Time option"
  NeverSet :: bool

record historicalStatusDoc =
  Id_h :: int
  EnvUUID_h :: string
  EntityId_h :: string
  Status_h :: Status
  StatusInfo_h :: string
  StatusData_h :: gomap
  Updated_h :: "Time option"

text \<open>The \<open>StatusInfo\<close> struct that \<open>getStatus\<close> and \<open>statusHistory\<close> fill.\<close>

record StatusInfo =
  Status_i :: Status
  Message_i :: string
  Data_i :: gomap
  Since_i :: "Time option"

text \<open>
  Modelled from the spec: the interface \<open>leadership.Token\<close> is declared outside the files
  at hand. The spec gives a token one operation, a check that either leaves the proposed
  operations unmodified or signals that the token is invalidated; \<open>valid\<close> is whether
  the check passes when the write executes.
\<close>

record Token =
  valid :: bool

text \<open>\<open>setStatusParams\<close>, each field with the prefix \<open>p_\<close>; a nil \<open>token\<close> is \<open>None\<close>.\<close>

record setStatusParams =
  p_badge :: string
  p_globalKey :: string
  p_status :: Status
  p_message :: string
  p_rawData :: gomap
  p_token :: "Token option"

text \<open>The fields of \<open>txn.Op\<close> that \<open>updateStatusSource\<close> sets: the collection, the
  document, the asserted \<open>txn-revno\<close>, and the document given to \<open>$set\<close>.\<close>

record Op =
  C_op :: string
  Id_op :: string
  Assert_op :: int
  Update_op :: statusDoc

text \<open>
  The calls the write path makes on its collaborators, in the order made: the sequence
  allocator, an insert into the history collection, the logger, a leadership token's
  check, the read of a document's revision, and the execution of a transaction on one
  document.
\<close>

datatype call =
    Call_sequence
  | Call_Insert historicalStatusDoc
  | Call_Errorf string error
  | Call_Check
  | Call_readTxnRevno string
  | Call_RunTransaction "Op list"

text \<open>
  The state behind \<open>*State\<close>: the collection \<open>statusesC\<close> of current-status
  documents by global key, each with the revision \<open>txn-revno\<close> the store keeps for it;
  the collection \<open>statusesHistoryC\<close>, oldest insertion first; the next value of the
  sequence \<open>statushistory\<close>; the environment's UUID; and the calls made so far.
\<close>

record State =
  statuses :: "string \<rightharpoonup> statusDoc \<times> int"
  history :: "historicalStatusDoc list"
  nextSeq :: int
  EnvironUUID :: string
  calls :: "call list"

text \<open>The store gives every document of a collection its own \<open>_id\<close>.\<close>

definition unique_ids :: "historicalStatusDoc list \<Rightarrow> bool" where
  "unique_ids docs = distinct (map Id_h docs)"

definition statusesC :: string where
  "statusesC = ''statuses''"

definition called :: "call \<Rightarrow> State \<Rightarrow> State" where
  "called c st = st\<lparr>calls := calls st @ [c]\<rparr>"

section \<open>The document store\<close>

text \<open>
  The store is an external collaborator. Each of its operations takes, besides the state,
  what the store itself decides: \<open>fails\<close> is \<open>Some msg\<close> when the operation fails for a
  reason of the store's own (connectivity, a query error) and \<open>None\<close> when it is carried
  out on the data.
\<close>

text \<open>
  Modelled from the spec: \<open>st.sequence\<close> is defined outside the files at hand. The spec
  describes an atomic counter allocator that produces a strictly increasing integer per
  call.
\<close>

definition sequence :: "State \<Rightarrow> string option \<Rightarrow> (error + int) \<times> State" where
  "sequence st fails =
     (let st1 = called Call_sequence st in
      case fails of
        Some msg \<Rightarrow> (Inl (StoreError msg), st1)
      | None \<Rightarrow> (Inr (nextSeq st1), st1\<lparr>nextSeq := nextSeq st1 + 1\<rparr>))"

text \<open>\<open>historyW.Insert(historyDoc)\<close>: an unconditional insert; the store refuses a second
  document with an \<open>_id\<close> it already holds.\<close>

definition Insert :: "State \<Rightarrow> historicalStatusDoc \<Rightarrow> string option \<Rightarrow> error option \<times> State" where
  "Insert st historyDoc fails =
     (let st1 = called (Call_Insert historyDoc) st in
      case fails of
        Some msg \<Rightarrow> (Some (StoreError msg), st1)
      | None \<Rightarrow>
          if Id_h historyDoc \<in> set (map Id_h (history st1))
          then (Some (StoreError ''duplicate key''), st1)
          else (None, st1\<lparr>history := history st1 @ [historyDoc]\<rparr>))"

definition Errorf :: "State \<Rightarrow> string \<Rightarrow> error \<Rightarrow> State" where
  "Errorf st format err = called (Call_Errorf format err) st"

text \<open>\<open>statuses.FindId(globalKey).One(&doc)\<close>.\<close>

definition FindId_One :: "State \<Rightarrow> string \<Rightarrow> string option \<Rightarrow> error + statusDoc" where
  "FindId_One st key fails =
     (case fails of
        Some msg \<Rightarrow> Inl (StoreError msg)
      | None \<Rightarrow> (case statuses st key of None \<Rightarrow> Inl ErrNotFound | Some (doc, revno) \<Rightarrow> Inr doc))"

text \<open>Go's conversion \<open>int32(n)\<close> of an \<open>int\<close>: the low 32 bits, read as a signed
  number. An \<open>int\<close> has 64 bits; the low 32 bits of \<open>size - 1\<close> and of \<open>-n\<close> are the
  same whether or not the 64-bit operation wraps, so the wrap is not written out.\<close>

definition int32 :: "int \<Rightarrow> int" where
  "int32 n = (n + 2147483648) mod 4294967296 - 2147483648"

text \<open>Queries on the history collection: \<open>Find(bson.D{{"entityid", globalKey}})\<close>,
  \<open>Sort("-_id")\<close>, \<open>Skip\<close>, \<open>Limit\<close>, \<open>One\<close>, as the driver and the store treat their
  arguments. The driver keeps the skip and the limit of a query in 32 bits: it sends
  \<open>int32(n)\<close> as the skip, and the store rejects a negative one; it keeps \<open>int32\<close> of the
  magnitude of \<open>n\<close> as the limit (the greatest 32-bit number for the least), where zero
  means no limit and a positive limit bounds the number of documents. What comes back
  when the 32-bit limit is negative is not determined by the code at hand: it is
  \<open>unfit\<close>, an input of the model.\<close>

definition Find_entityid :: "string \<Rightarrow> historicalStatusDoc list \<Rightarrow> historicalStatusDoc list" where
  "Find_entityid key docs = filter (\<lambda>d. EntityId_h d = key) docs"

definition Sort_desc_id :: "historicalStatusDoc list \<Rightarrow> historicalStatusDoc list" where
  "Sort_desc_id docs = sort_key (\<lambda>d. - Id_h d) docs"

definition Skip :: "int \<Rightarrow> 'a list \<Rightarrow> error + 'a list" where
  "Skip n docs =
     (if int32 n < 0 then Inl (StoreError ''bad skip value'')
      else Inr (drop (nat (int32 n)) docs))"

definition Limit :: "int \<Rightarrow> ('a list \<Rightarrow> error + 'a list) \<Rightarrow> 'a list \<Rightarrow> error + 'a list" where
  "Limit n unfit docs =
     (let limit = (if n = - 2147483648 then 2147483647 else int32 \<bar>n\<bar>) in
      if limit = 0 then Inr docs
      else if 0 < limit then Inr (take (nat limit) docs)
      else unfit docs)"

definition One :: "'a list \<Rightarrow> error + 'a" where
  "One docs = (case docs of [] \<Rightarrow> Inl ErrNotFound | doc # _ \<Rightarrow> Inr doc)"

text \<open>\<open>historyW.RemoveAll(bson.D{{"entityid", globalKey}, {"_id", bson.M{"$lt": keepUpTo}}})\<close>.\<close>

definition RemoveAll :: "State \<Rightarrow> string \<Rightarrow> int \<Rightarrow> string option \<Rightarrow> error + State" where
  "RemoveAll st key keepUpTo fails =
     (case fails of
        Some msg \<Rightarrow> Inl (StoreError msg)
      | None \<Rightarrow>
          Inr (st\<lparr>history := filter (\<lambda>d. \<not> (EntityId_h d = key \<and> Id_h d < keepUpTo)) (history st)\<rparr>))"

text \<open>
  Modelled from the spec: \<open>st.readTxnRevno\<close> is defined outside the files at hand. The
  spec has the update read the record's current store-assigned revision, and counts a
  record that does not exist as not found.
\<close>

definition readTxnRevno :: "State \<Rightarrow> string \<Rightarrow> string option \<Rightarrow> (error + int) \<times> State" where
  "readTxnRevno st key fails =
     (let st1 = called (Call_readTxnRevno key) st in
      case fails of
        Some msg \<Rightarrow> (Inl (StoreError msg), st1)
      | None \<Rightarrow> (case statuses st1 key of
                   None \<Rightarrow> (Inl ErrNotFound, st1)
                 | Some (doc, revno) \<Rightarrow> (Inr revno, st1)))"

text \<open>
  Modelled from the spec: \<open>st.run\<close> and the transaction runner behind it are defined
  outside the files at hand. In the spec the composed operation is executed once: an
  error of the transaction source is the outcome; otherwise the operations are applied
  together if every assertion holds, and an assertion that does not hold is reported by
  the store in the same error class as not found. \<open>concurrent\<close> is what other writers
  do to the collection between the building of the operations and their execution.
\<close>

definition assertion_holds :: "State \<Rightarrow> Op \<Rightarrow> bool" where
  "assertion_holds st op =
     (case statuses st (Id_op op) of None \<Rightarrow> False | Some (doc, revno) \<Rightarrow> revno = Assert_op op)"

definition apply_Op :: "Op \<Rightarrow> State \<Rightarrow> State" where
  "apply_Op op st =
     (case statuses st (Id_op op) of
        None \<Rightarrow> st
      | Some (doc, revno) \<Rightarrow> st\<lparr>statuses := (statuses st)(Id_op op \<mapsto> (Update_op op, revno + 1))\<rparr>)"

definition RunTransaction :: "State \<Rightarrow> Op list \<Rightarrow> string option \<Rightarrow> error option \<times> State" where
  "RunTransaction st ops fails =
     (let st1 = called (Call_RunTransaction ops) st in
      case fails of
        Some msg \<Rightarrow> (Some (StoreError msg), st1)
      | None \<Rightarrow>
          if list_all (assertion_holds st1) ops then (None, fold apply_Op ops st1)
          else (Some ErrNotFound, st1))"

type_synonym TransactionSource = "State \<Rightarrow> (error + Op list) \<times> State"

definition run ::
  "State \<Rightarrow> TransactionSource \<Rightarrow> ((string \<rightharpoonup> statusDoc \<times> int) \<Rightarrow> (string \<rightharpoonup> statusDoc \<times> int))
     \<Rightarrow> string option \<Rightarrow> error option \<times> State" where
  "run st buildTxn concurrent fails =
     (case buildTxn st of
        (Inl err, st1) \<Rightarrow> (Some err, st1)
      | (Inr ops, st1) \<Rightarrow> RunTransaction (st1\<lparr>statuses := concurrent (statuses st1)\<rparr>) ops fails)"

text \<open>
  Modelled from the spec: \<open>wrapSource\<close> is defined outside the files at hand. In the spec
  the update is composed with the token's own validity check, so that the whole operation
  aborts when the token is invalidated.
\<close>

definition wrapSource :: "TransactionSource \<Rightarrow> Token \<Rightarrow> TransactionSource" where
  "wrapSource buildTxn tok =
     (\<lambda>st. let st1 = called Call_Check st in
            if valid tok then buildTxn st1 else (Inl Invalidated, st1))"

text \<open>
  Modelled from the spec: \<open>nowToTheSecond\<close> is defined outside the files at hand. The spec
  has the current time truncated to one-second precision.
\<close>

definition nowToTheSecond :: "Time \<Rightarrow> Time" where
  "nowToTheSecond clock = clock - clock mod 1000000000"

section \<open>The status functions\<close>

text \<open>\<open>getStatus\<close>. The deferred annotation applies to every error returned.\<close>

definition getStatus ::
  "(string \<Rightarrow> string) \<Rightarrow> State \<Rightarrow> string \<Rightarrow> string \<Rightarrow> string option \<Rightarrow> error + StatusInfo" where
  "getStatus unesc st globalKey badge fails =
     (case FindId_One st globalKey fails of
        Inl err \<Rightarrow>
          if err = ErrNotFound then Inl (Annotated ''cannot get status'' (NotFound badge))
          else Inl (Annotated ''cannot get status'' (Trace err))
      | Inr doc \<Rightarrow>
          Inr \<lparr>Status_i = Status doc,
               Message_i = StatusInfo doc,
               Data_i = unescapeKeys unesc (StatusData doc),
               Since_i = Updated doc\<rparr>)"

text \<open>The history document that \<open>probablyUpdateStatusHistory\<close> builds.\<close>

definition newHistoryDoc :: "int \<Rightarrow> string \<Rightarrow> string \<Rightarrow> statusDoc \<Rightarrow> historicalStatusDoc" where
  "newHistoryDoc id_h envUUID globalKey doc =
     \<lparr>Id_h = id_h,
      EnvUUID_h = envUUID,
      EntityId_h = globalKey,
      Status_h = Status doc,
      StatusInfo_h = StatusInfo doc,
      StatusData_h = StatusData doc,
      Updated_h = Updated doc\<rparr>"

text \<open>\<open>probablyUpdateStatusHistory\<close>. It has no result: the model returns
  the state only.\<close>

definition probablyUpdateStatusHistory ::
  "State \<Rightarrow> string \<Rightarrow> statusDoc \<Rightarrow> string option \<Rightarrow> string option \<Rightarrow> State" where
  "probablyUpdateStatusHistory st globalKey doc sequence_fails Insert_fails =
     (case sequence st sequence_fails of
        (Inl err, st1) \<Rightarrow> Errorf st1 ''failed to generate id for status history: %v'' err
      | (Inr id_h, st1) \<Rightarrow>
          (let historyDoc = newHistoryDoc id_h (EnvironUUID st1) globalKey doc
           in case Insert st1 historyDoc Insert_fails of
                (Some err, st2) \<Rightarrow> Errorf st2 ''failed to write status history: %v'' err
              | (None, st2) \<Rightarrow> st2))"

text \<open>\<open>updateStatusSource\<close>: the transaction source reads the revision when
  it is called, and asserts it in the one operation it builds.\<close>

definition updateStatusSource :: "string \<Rightarrow> statusDoc \<Rightarrow> string option \<Rightarrow> TransactionSource" where
  "updateStatusSource globalKey doc readTxnRevno_fails =
     (\<lambda>st. case readTxnRevno st globalKey readTxnRevno_fails of
              (Inl err, st1) \<Rightarrow> (Inl (Trace err), st1)
            | (Inr txnRevno, st1) \<Rightarrow>
                (Inr [\<lparr>C_op = statusesC, Id_op = globalKey,
                       Assert_op = txnRevno, Update_op = doc\<rparr>], st1))"

text \<open>What the surroundings of one \<open>setStatus\<close> call decide: the reading of the clock,
  the failures of the store, and the writes of other agents.\<close>

record world =
  w_clock :: Time
  w_sequence_fails :: "string option"
  w_Insert_fails :: "string option"
  w_readTxnRevno_fails :: "string option"
  w_concurrent :: "(string \<rightharpoonup> statusDoc \<times> int) \<Rightarrow> (string \<rightharpoonup> statusDoc \<times> int)"
  w_RunTransaction_fails :: "string option"

text \<open>The document \<open>setStatus\<close> builds from its parameters; the fields \<open>EnvUUID\<close> and
  \<open>NeverSet\<close> are not named in the composite literal and take their zero values.\<close>

definition newStatusDoc :: "(string \<Rightarrow> string) \<Rightarrow> setStatusParams \<Rightarrow> Time \<Rightarrow> statusDoc" where
  "newStatusDoc esc params now =
     \<lparr>EnvUUID = [],
      Status = p_status params,
      StatusInfo = p_message params,
      StatusData = escapeKeys esc (p_rawData params),
      Updated = Some now,
      NeverSet = False\<rparr>"

text \<open>\<open>setStatus\<close>.\<close>

definition setStatus ::
  "(string \<Rightarrow> string) \<Rightarrow> State \<Rightarrow> setStatusParams \<Rightarrow> world \<Rightarrow> error option \<times> State" where
  "setStatus esc st params w =
     (let now = nowToTheSecond (w_clock w);
          doc = newStatusDoc esc params now;
          st1 = probablyUpdateStatusHistory st (p_globalKey params) doc
                  (w_sequence_fails w) (w_Insert_fails w);
          buildTxn = updateStatusSource (p_globalKey params) doc (w_readTxnRevno_fails w);
          buildTxn' = (case p_token params of None \<Rightarrow> buildTxn
                       | Some tok \<Rightarrow> wrapSource buildTxn tok)
      in case run st1 buildTxn' (w_concurrent w) (w_RunTransaction_fails w) of
           (err, st2) \<Rightarrow>
             (DeferredAnnotatef ''cannot set status''
                (case err of
                   None \<Rightarrow> None
                 | Some e \<Rightarrow> if Cause e = ErrNotFound then Some (NotFound (p_badge params))
                             else Some (Trace e)),
              st2))"

text \<open>The \<open>StatusInfo\<close> that the loop of \<open>statusHistory\<close> builds from one document.\<close>

definition historyInfo :: "(string \<Rightarrow> string) \<Rightarrow> historicalStatusDoc \<Rightarrow> StatusInfo" where
  "historyInfo unesc doc =
     \<lparr>Status_i = Status_h doc,
      Message_i = StatusInfo_h doc,
      Data_i = unescapeKeys unesc (StatusData_h doc),
      Since_i = Updated_h doc\<rparr>"

text \<open>\<open>statusHistory\<close>. \<open>fails\<close> is the error that \<open>All\<close> reports for a reason of the
  store's own, if it reports one; the source tests the error of \<open>All\<close> against
  \<open>mgo.ErrNotFound\<close>.\<close>

definition statusHistory ::
  "(string \<Rightarrow> string) \<Rightarrow> State \<Rightarrow> string \<Rightarrow> int \<Rightarrow> error option
     \<Rightarrow> (historicalStatusDoc list \<Rightarrow> error + historicalStatusDoc list)
     \<Rightarrow> error + StatusInfo list" where
  "statusHistory unesc st globalKey size_h fails unfit =
     (let err_docs =
            (case fails of
               Some err \<Rightarrow> Inl err
             | None \<Rightarrow>
                 Limit size_h unfit (Sort_desc_id (Find_entityid globalKey (history st))))
      in case err_docs of
           Inl err \<Rightarrow>
             if err = ErrNotFound then Inl (NotFound ''status history'')
             else Inl (Annotated ''cannot get status history'' err)
         | Inr docs \<Rightarrow> Inr (map (historyInfo unesc) docs))"

text \<open>\<open>getEntitiesWithStatuses\<close>: the distinct values of \<open>entityid\<close>.\<close>

definition getEntitiesWithStatuses :: "State \<Rightarrow> string option \<Rightarrow> error + string list" where
  "getEntitiesWithStatuses st fails =
     (case fails of
        Some msg \<Rightarrow> Inl (Trace (StoreError msg))
      | None \<Rightarrow> Inr (remdups (map EntityId_h (history st))))"

text \<open>\<open>getOldestTimeToKeep\<close>, with its three results.\<close>

definition getOldestTimeToKeep ::
  "State \<Rightarrow> string \<Rightarrow> int \<Rightarrow> string option \<Rightarrow> int \<times> bool \<times> error option" where
  "getOldestTimeToKeep st globalKey size_h fails =
     (let err_result =
            (case fails of
               Some msg \<Rightarrow> Inl (StoreError msg)
             | None \<Rightarrow>
                 (case Skip (size_h - 1) (Sort_desc_id (Find_entityid globalKey (history st))) of
                    Inl err \<Rightarrow> Inl err
                  | Inr docs \<Rightarrow> One docs))
      in case err_result of
           Inl err \<Rightarrow> if err = ErrNotFound then (- 1, False, None)
                      else (- 1, False, Some (Trace err))
         | Inr result \<Rightarrow> (Id_h result, True, None))"

text \<open>What the store decides during one \<open>PruneStatusHistory\<close> call: the failure of the
  distinct query, and of the query and the removal made for each global key.\<close>

record prune_world =
  w_Distinct_fails :: "string option"
  w_One_fails :: "string \<Rightarrow> string option"
  w_RemoveAll_fails :: "string \<Rightarrow> string option"

text \<open>\<open>PruneStatusHistory\<close>; \<open>prune_range\<close> is its loop over the global
  keys.\<close>

fun prune_range :: "State \<Rightarrow> int \<Rightarrow> prune_world \<Rightarrow> string list \<Rightarrow> error option \<times> State" where
  "prune_range st maxLogsPerEntity w [] = (None, st)"
| "prune_range st maxLogsPerEntity w (globalKey # globalKeys) =
     (case getOldestTimeToKeep st globalKey maxLogsPerEntity (w_One_fails w globalKey) of
        (keepUpTo, ok, Some err) \<Rightarrow> (Some (Trace err), st)
      | (keepUpTo, ok, None) \<Rightarrow>
          if \<not> ok then prune_range st maxLogsPerEntity w globalKeys
          else (case RemoveAll st globalKey keepUpTo (w_RemoveAll_fails w globalKey) of
                  Inl err \<Rightarrow> (Some (Trace err), st)
                | Inr st1 \<Rightarrow> prune_range st1 maxLogsPerEntity w globalKeys))"

definition PruneStatusHistory :: "State \<Rightarrow> int \<Rightarrow> prune_world \<Rightarrow> error option \<times> State" where
  "PruneStatusHistory st maxLogsPerEntity w =
     (case getEntitiesWithStatuses st (w_Distinct_fails w) of
        Inl err \<Rightarrow> (Some (Trace err), st)
      | Inr globalKeys \<Rightarrow> prune_range st maxLogsPerEntity w globalKeys)"

section \<open>Conditions and example inputs used in the statements\<close>

text \<open>Whether the token of a \<open>setStatus\<close> call lets the write through: there is no
  token, or its check passes.\<close>

definition token_ok :: "setStatusParams \<Rightarrow> bool" where
  "token_ok params = (case p_token params of None \<Rightarrow> True | Some tok \<Rightarrow> valid tok)"

text \<open>The revision a document has when the transaction executes, after the writes of
  other agents.\<close>

definition revno_after :: "world \<Rightarrow> State \<Rightarrow> string \<Rightarrow> int option" where
  "revno_after w st key = map_option snd (w_concurrent w (statuses st) key)"

text \<open>Which calls the history recorder makes, and which the update.\<close>

fun recorder_call :: "call \<Rightarrow> bool" where
  "recorder_call Call_sequence = True"
| "recorder_call (Call_Insert historyDoc) = True"
| "recorder_call (Call_Errorf format err) = True"
| "recorder_call c = False"

fun update_call :: "call \<Rightarrow> bool" where
  "update_call Call_Check = True"
| "update_call (Call_readTxnRevno key) = True"
| "update_call (Call_RunTransaction ops) = True"
| "update_call c = False"

text \<open>A state with one current-status document, created with \<open>NeverSet\<close> true, and the
  history of two entities.\<close>

definition ex_doc :: statusDoc where
  "ex_doc = \<lparr>EnvUUID = ''env-1'', Status = ''unknown'', StatusInfo = ''waiting'',
             StatusData = [(''a|b'', VScalar ''x'')], Updated = Some 5000000000,
             NeverSet = True\<rparr>"

definition ex_entry :: "int \<Rightarrow> string \<Rightarrow> historicalStatusDoc" where
  "ex_entry n key = \<lparr>Id_h = n, EnvUUID_h = ''env-1'', EntityId_h = key, Status_h = ''active'',
                      StatusInfo_h = ''ready'', StatusData_h = [(''a|b'', VScalar ''x'')],
                      Updated_h = Some 5000000000\<rparr>"

definition ex_state :: State where
  "ex_state = \<lparr>statuses = [''u#app/0'' \<mapsto> (ex_doc, 7)],
               history = [ex_entry 1 ''u#app/0'', ex_entry 2 ''m#0'', ex_entry 3 ''u#app/0'',
                          ex_entry 4 ''u#app/0'', ex_entry 5 ''m#0'', ex_entry 6 ''u#app/0''],
               nextSeq = 7, EnvironUUID = ''env-1'', calls = []\<rparr>"

definition ex_params :: setStatusParams where
  "ex_params = \<lparr>p_badge = ''unit'', p_globalKey = ''u#app/0'', p_status = ''active'',
                p_message = ''ready'', p_rawData = [(''a.b'', VScalar ''x'')], p_token = None\<rparr>"

definition ex_world :: world where
  "ex_world = \<lparr>w_clock = 7123456789, w_sequence_fails = None, w_Insert_fails = None,
               w_readTxnRevno_fails = None, w_concurrent = (\<lambda>s. s),
               w_RunTransaction_fails = None\<rparr>"

definition ex_esc :: "string \<Rightarrow> string" where
  "ex_esc = map (\<lambda>c. if c = CHR ''.'' then CHR ''|'' else c)"

definition ex_unesc :: "string \<Rightarrow> string" where
  "ex_unesc = map (\<lambda>c. if c = CHR ''|'' then CHR ''.'' else c)"

text \<open>The documents of one entity that a pruning to \<open>n\<close> entries keeps: all of them when
  they are fewer than \<open>n\<close>, and otherwise those whose identifier is not below that of the
  \<open>n\<close>-th most recent one.\<close>

definition kept :: "int \<Rightarrow> historicalStatusDoc list \<Rightarrow> historicalStatusDoc list" where
  "kept n own =
     (if nat n \<le> length own
      then filter (\<lambda>d. Id_h (Sort_desc_id own ! (nat n - 1)) \<le> Id_h d) own
      else own)"

text \<open>The history after the pruning loop has dealt with one global key.\<close>

definition prune_key :: "int \<Rightarrow> string \<Rightarrow> historicalStatusDoc list \<Rightarrow> historicalStatusDoc list" where
  "prune_key n key docs =
     (if nat n \<le> length (Find_entityid key docs)
      then filter (\<lambda>d. \<not> (EntityId_h d = key
                          \<and> Id_h d < Id_h (Sort_desc_id (Find_entityid key docs) ! (nat n - 1))))
             docs
      else docs)"

definition ex_prune_world :: prune_world where
  "ex_prune_world = \<lparr>w_Distinct_fails = None, w_One_fails = (\<lambda>key. None),
                     w_RemoveAll_fails = (\<lambda>key. None)\<rparr>"

section \<open>Maps as objects on a heap\<close>

text \<open>
  A Go map value is a reference: two variables can hold the same map, and a write through
  one is seen through the other. To state what \<open>mapKeys\<close> does to the maps it is given,
  the maps are objects on a heap: the heap is the list of the map objects allocated so
  far, an address is an index into it, and \<open>make(map[string]interface{})\<close> appends an
  empty object. A value held in a map is the address of a string-keyed map, a slice, or a
  scalar, as in \<open>val\<close>.
\<close>

type_synonym addr = nat

datatype hval =
    HMap addr
  | HSlice "hval list"
  | HScalar string

type_synonym heap = "(string \<times> hval) list list"

text \<open>
  \<open>mapKeys\<close> on the heap. \<open>range_h\<close> is the loop: it visits the keys the input had
  when the loop began, reads the value of each from the input as it is then (a key no
  longer there is skipped), and writes \<open>result[f(key)]\<close> in the object at \<open>result\<close>. A
  map nested in itself makes the source recurse without end; the first argument bounds
  the depth of the recursion, and \<open>None\<close> is the call that does not return within it.
\<close>

fun mapKeys_h :: "nat \<Rightarrow> (string \<Rightarrow> string) \<Rightarrow> addr \<Rightarrow> heap \<Rightarrow> (addr \<times> heap) option"
  and range_h :: "nat \<Rightarrow> (string \<Rightarrow> string) \<Rightarrow> addr \<Rightarrow> string list \<Rightarrow> addr \<Rightarrow> heap \<Rightarrow> heap option"
where
  "mapKeys_h 0 f input h = None"
| "mapKeys_h (Suc n) f input h =
     (if input < length h
      then (case range_h n f input (map fst (h ! input)) (length h) (h @ [[]]) of
              None \<Rightarrow> None
            | Some h' \<Rightarrow> Some (length h, h'))
      else None)"
| "range_h n f input [] result h = Some h"
| "range_h n f input (key # keys) result h =
     (case map_of (h ! input) key of
        None \<Rightarrow> range_h n f input keys result h
      | Some (HMap submap) \<Rightarrow>
          (case mapKeys_h n f submap h of
             None \<Rightarrow> None
           | Some (r, h1) \<Rightarrow>
               range_h n f input keys result
                 (h1[result := AList.update (f key) (HMap r) (h1 ! result)]))
      | Some value \<Rightarrow>
          range_h n f input keys result
            (h[result := AList.update (f key) value (h ! result)]))"

text \<open>Every map held directly in an object at or above \<open>L\<close> is itself at or above
  \<open>L\<close>.\<close>

definition new_refs_fresh :: "nat \<Rightarrow> heap \<Rightarrow> bool" where
  "new_refs_fresh L h =
     (\<forall>a. L \<le> a \<and> a < length h \<longrightarrow> (\<forall>k b. (k, HMap b) \<in> set (h ! a) \<longrightarrow> L \<le> b))"

text \<open>The objects below \<open>L\<close> hold maps below \<open>L\<close> only, and no map is nested in itself:
  \<open>rank\<close> decreases from a map to each map it holds.\<close>

definition acyclic_below :: "(addr \<Rightarrow> nat) \<Rightarrow> nat \<Rightarrow> heap \<Rightarrow> bool" where
  "acyclic_below rank L h =
     (L \<le> length h
      \<and> (\<forall>a < L. \<forall>k b. (k, HMap b) \<in> set (h ! a) \<longrightarrow> b < L \<and> rank b < rank a))"

text \<open>A heap of two maps, the second holding the first both directly and in a slice.\<close>

definition ex_heap :: heap where
  "ex_heap = [[(''c.d'', HScalar ''x'')], [(''a.b'', HMap 0), (''e'', HSlice [HMap 0])]]"

section \<open>The key escaper\<close>

lemma update_absent: "k \<notin> fst ` set al \<Longrightarrow> AList.update k v al = al @ [(k, v)]"
  by (induction al) auto

lemma mapKeys_range_step:
  "mapKeys_range f ((k, v) # ps) result =
     mapKeys_range f ps (AList.update (f k) (mapValue f v) result)"
  by (simp add: mapValue_def)

text \<open>When no two keys are sent to the same key, and to none already in the result, the
  loop adds one entry for each entry of the input, in the order visited.\<close>

lemma mapKeys_range_fresh:
  "distinct (map f (map fst ps)) \<Longrightarrow> f ` fst ` set ps \<inter> fst ` set result = {}
   \<Longrightarrow> mapKeys_range f ps result = result @ map (mapEntry f) ps"
proof (induction ps arbitrary: result)
  case Nil
  then show ?case by simp
next
  case (Cons p ps)
  obtain k v where p: "p = (k, v)" by (cases p)
  from Cons.prems have fresh: "f k \<notin> fst ` set result" by (auto simp: p)
  have "mapKeys_range f (p # ps) result = mapKeys_range f ps (result @ [(f k, mapValue f v)])"
    unfolding p mapKeys_range_step by (simp add: update_absent[OF fresh])
  also have "\<dots> = (result @ [(f k, mapValue f v)]) @ map (mapEntry f) ps"
    using Cons.prems by (intro Cons.IH) (auto simp: p)
  finally show ?case by (simp add: p mapEntry_def)
qed

lemma nested_keys_top: "fst ` set m \<subseteq> set (nested_keys m)"
  by (induction m rule: nested_keys.induct) auto

lemma wf_map_distinct: "wf_map m \<Longrightarrow> distinct (map fst m)"
  by (induction m rule: wf_map.induct) auto

lemma mapKeys_inj:
  assumes "wf_map m" "inj_on f (fst ` set m)"
  shows "mapKeys f m = map (mapEntry f) m"
proof -
  have "distinct (map f (map fst m))"
    using assms wf_map_distinct[of m] by (simp only: distinct_map set_map)
  then show ?thesis by (simp add: mapKeys_range_fresh)
qed

lemma left_inverse_inj: "\<forall>k \<in> A. g (f k) = k \<Longrightarrow> inj_on f A"
  by (metis inj_onI)

lemma mapKeys_roundtrip:
  "wf_map m \<Longrightarrow> \<forall>k \<in> set (nested_keys m). unesc (esc k) = k
   \<Longrightarrow> mapKeys unesc (mapKeys esc m) = m"
proof (induction m rule: wf_map.induct)
  case 1
  then show ?case by simp
next
  case (2 key "value" rest)
  let ?m = "(key, value) # rest"
  have keys: "\<forall>k \<in> fst ` set ?m. unesc (esc k) = k"
    using "2.prems"(2) nested_keys_top[of ?m] by blast
  have e: "mapKeys esc ?m = map (mapEntry esc) ?m"
    using "2.prems"(1) keys by (intro mapKeys_inj left_inverse_inj[where g=unesc])
  have wfr: "wf_map rest" using "2.prems"(1) by simp
  have keysr: "\<forall>k \<in> set (nested_keys rest). unesc (esc k) = k"
    using "2.prems"(2) by simp
  have er: "mapKeys esc rest = map (mapEntry esc) rest"
    using wfr keys by (intro mapKeys_inj left_inverse_inj[where g=unesc]) auto
  have d: "distinct (map unesc (map fst (map (mapEntry esc) ?m)))"
  proof -
    have "map unesc (map fst (map (mapEntry esc) ?m)) = map fst ?m"
      using keys by (auto simp: mapEntry_def)
    then show ?thesis using wf_map_distinct[OF "2.prems"(1)] by (simp only:)
  qed
  have u: "mapKeys unesc (map (mapEntry esc) ?m) = map (mapEntry unesc) (map (mapEntry esc) ?m)"
    using d by (simp add: mapKeys_range_fresh)
  have dr: "distinct (map unesc (map fst (map (mapEntry esc) rest)))"
    using d by (simp del: map_map)
  have ur: "mapKeys unesc (map (mapEntry esc) rest) = map (mapEntry unesc) (map (mapEntry esc) rest)"
    using dr by (simp add: mapKeys_range_fresh)
  have rest_eq: "map (mapEntry unesc) (map (mapEntry esc) rest) = rest"
    using "2.IH"(2)[OF wfr keysr] er ur by simp
  have head_eq: "mapEntry unesc (mapEntry esc (key, value)) = (key, value)"
  proof (cases "value")
    case (VMap s)
    have "wf_map s" using "2.prems"(1) VMap by simp
    moreover have "\<forall>k \<in> set (nested_keys s). unesc (esc k) = k"
      using "2.prems"(2) VMap by simp
    ultimately have "mapKeys unesc (mapKeys esc s) = s" using "2.IH"(1)[OF VMap] by simp
    then show ?thesis using keys VMap by (simp add: mapEntry_def mapValue_def)
  next
    case (VSlice vs)
    then show ?thesis using keys by (simp add: mapEntry_def mapValue_def)
  next
    case (VScalar x)
    then show ?thesis using keys by (simp add: mapEntry_def mapValue_def)
  qed
  show ?case unfolding e u using head_eq rest_eq by simp
qed

text \<open>
  C2. Let \<open>m\<close> be a nested string-keyed map (no key twice in a map) whose keys, at every
  level of map nesting, are restored by unescaping after escaping, which is what a key
  without characters in escaped form amounts to. Then escaping rewrites each key, keeps
  each value that is not a string-keyed map as it is and escapes each that is one; and
  unescaping the escaped map gives \<open>m\<close> back.
\<close>

theorem unescape_escape_roundtrip:
  assumes "wf_map m" and "\<forall>k \<in> set (nested_keys m). unesc (esc k) = k"
  shows "escapeKeys esc m = map (mapEntry esc) m
         \<and> mapValue esc (VSlice vs) = VSlice vs
         \<and> mapValue esc (VScalar x) = VScalar x
         \<and> unescapeKeys unesc (escapeKeys esc m) = m"
proof -
  have "\<forall>k \<in> fst ` set m. unesc (esc k) = k"
    using assms(2) nested_keys_top[of m] by blast
  then have "mapKeys esc m = map (mapEntry esc) m"
    using assms(1) by (intro mapKeys_inj left_inverse_inj[where g=unesc])
  moreover have "mapKeys unesc (mapKeys esc m) = m"
    using assms by (rule mapKeys_roundtrip)
  ultimately show ?thesis
    by (simp add: escapeKeys_def unescapeKeys_def mapValue_def)
qed

theorem unescape_escape_roundtrip_witness:
  "wf_map [(''a.b'', VMap [(''c.d'', VScalar ''x''), (''e'', VScalar ''y'')]),
           (''f'', VSlice [VMap [(''g.h'', VScalar ''z'')]])]
   \<and> list_all
        (\<lambda>k. map (\<lambda>c. if c = CHR ''|'' then CHR ''.'' else c)
               (map (\<lambda>c. if c = CHR ''.'' then CHR ''|'' else c) k) = k)
        (nested_keys
          [(''a.b'', VMap [(''c.d'', VScalar ''x''), (''e'', VScalar ''y'')]),
           (''f'', VSlice [VMap [(''g.h'', VScalar ''z'')]])])
   \<and> escapeKeys (map (\<lambda>c. if c = CHR ''.'' then CHR ''|'' else c))
        [(''a.b'', VMap [(''c.d'', VScalar ''x''), (''e'', VScalar ''y'')]),
         (''f'', VSlice [VMap [(''g.h'', VScalar ''z'')]])]
      = [(''a|b'', VMap [(''c|d'', VScalar ''x''), (''e'', VScalar ''y'')]),
         (''f'', VSlice [VMap [(''g.h'', VScalar ''z'')]])]
   \<and> unescapeKeys (map (\<lambda>c. if c = CHR ''|'' then CHR ''.'' else c))
        (escapeKeys (map (\<lambda>c. if c = CHR ''.'' then CHR ''|'' else c))
           [(''a.b'', VMap [(''c.d'', VScalar ''x''), (''e'', VScalar ''y'')]),
            (''f'', VSlice [VMap [(''g.h'', VScalar ''z'')]])])
      = [(''a.b'', VMap [(''c.d'', VScalar ''x''), (''e'', VScalar ''y'')]),
         (''f'', VSlice [VMap [(''g.h'', VScalar ''z'')]])]"
proof -
  let ?m = "[(''a.b'', VMap [(''c.d'', VScalar ''x''), (''e'', VScalar ''y'')]),
             (''f'', VSlice [VMap [(''g.h'', VScalar ''z'')]])]"
  let ?esc = "map (\<lambda>c. if c = CHR ''.'' then CHR ''|'' else c)"
  let ?unesc = "map (\<lambda>c. if c = CHR ''|'' then CHR ''.'' else c)"
  have h1: "wf_map ?m" by simp
  have h2: "\<forall>k \<in> set (nested_keys ?m). ?unesc (?esc k) = k" by simp
  have h3: "map (mapEntry ?esc) ?m
            = [(''a|b'', VMap [(''c|d'', VScalar ''x''), (''e'', VScalar ''y'')]),
               (''f'', VSlice [VMap [(''g.h'', VScalar ''z'')]])]"
    by (simp add: mapEntry_def mapValue_def)
  note r = unescape_escape_roundtrip[where m="?m" and esc="?esc" and unesc="?unesc"
      and vs="[]" and x="[]", OF h1 h2]
  from r have "escapeKeys ?esc ?m = map (mapEntry ?esc) ?m" by (rule conjunct1)
  with h3 have e: "escapeKeys ?esc ?m
      = [(''a|b'', VMap [(''c|d'', VScalar ''x''), (''e'', VScalar ''y'')]),
         (''f'', VSlice [VMap [(''g.h'', VScalar ''z'')]])]"
    by (simp only:)
  from r have u: "unescapeKeys ?unesc (escapeKeys ?esc ?m) = ?m" by blast
  have h2': "list_all (\<lambda>k. ?unesc (?esc k) = k) (nested_keys ?m)" by simp
  show ?thesis by (intro conjI h1 h2' e u)
qed

section \<open>Reading the current status\<close>

lemma getStatus_table:
  "getStatus unesc st key badge fails =
     (case fails of
        Some msg \<Rightarrow> Inl (Annotated ''cannot get status'' (StoreError msg))
      | None \<Rightarrow>
          (case statuses st key of
             None \<Rightarrow> Inl (Annotated ''cannot get status'' (NotFound badge))
           | Some (doc, revno) \<Rightarrow>
               Inr \<lparr>Status_i = Status doc, Message_i = StatusInfo doc,
                    Data_i = unescapeKeys unesc (StatusData doc), Since_i = Updated doc\<rparr>))"
  by (simp add: getStatus_def FindId_One_def Trace_def split: option.splits)

text \<open>
  C6. \<open>getStatus\<close> fails with an error whose cause is \<open>NotFound badge\<close>, for the badge
  of the caller, exactly when the store carries the lookup out and holds no current-status
  document for the key. When the document is there, the result holds its status, message
  and timestamp, and its data with the keys unescaped. Any failure of the store itself
  comes back annotated with "cannot get status".
\<close>

theorem getStatus_outcomes:
  "((\<exists>e. getStatus unesc st key badge fails = Inl e \<and> Cause e = NotFound badge)
      \<longleftrightarrow> fails = None \<and> statuses st key = None)
   \<and> (fails = None \<and> statuses st key = None
        \<longrightarrow> getStatus unesc st key badge fails
            = Inl (Annotated ''cannot get status'' (NotFound badge)))
   \<and> (\<forall>doc revno. fails = None \<and> statuses st key = Some (doc, revno)
        \<longrightarrow> getStatus unesc st key badge fails
            = Inr \<lparr>Status_i = Status doc, Message_i = StatusInfo doc,
                   Data_i = unescapeKeys unesc (StatusData doc), Since_i = Updated doc\<rparr>)
   \<and> (\<forall>msg. fails = Some msg
        \<longrightarrow> getStatus unesc st key badge fails
            = Inl (Annotated ''cannot get status'' (StoreError msg)))"
  by (auto simp: getStatus_table split: option.splits)

theorem getStatus_outcomes_witness:
  "getStatus ex_unesc ex_state ''u#app/1'' ''unit'' None
     = Inl (Annotated ''cannot get status'' (NotFound ''unit''))
   \<and> getStatus ex_unesc ex_state ''u#app/0'' ''unit'' None
     = Inr \<lparr>Status_i = ''unknown'', Message_i = ''waiting'',
            Data_i = [(''a.b'', VScalar ''x'')], Since_i = Some 5000000000\<rparr>
   \<and> getStatus ex_unesc ex_state ''u#app/0'' ''unit'' (Some ''EOF'')
     = Inl (Annotated ''cannot get status'' (StoreError ''EOF''))"
proof -
  have missing: "statuses ex_state ''u#app/1'' = None"
    by (simp add: ex_state_def)
  have present: "statuses ex_state ''u#app/0'' = Some (ex_doc, 7)"
    by (simp add: ex_state_def)
  have data: "unescapeKeys ex_unesc (StatusData ex_doc) = [(''a.b'', VScalar ''x'')]"
    by (simp add: unescapeKeys_def ex_unesc_def ex_doc_def)
  show ?thesis
    using getStatus_outcomes[of ex_unesc ex_state "''u#app/1''" "''unit''" None]
      getStatus_outcomes[of ex_unesc ex_state "''u#app/0''" "''unit''" None]
      getStatus_outcomes[of ex_unesc ex_state "''u#app/0''" "''unit''" "Some ''EOF''"]
      missing present data
    by (simp add: ex_doc_def)
qed

section \<open>The history recorder and the status write\<close>

lemma recorder_table:
  "probablyUpdateStatusHistory st key doc sf insf =
     (case sf of
        Some msg \<Rightarrow>
          st\<lparr>calls := calls st @ [Call_sequence,
                 Call_Errorf ''failed to generate id for status history: %v'' (StoreError msg)]\<rparr>
      | None \<Rightarrow>
          (let hdoc = newHistoryDoc (nextSeq st) (EnvironUUID st) key doc in
           case insf of
             Some msg \<Rightarrow>
               st\<lparr>nextSeq := nextSeq st + 1,
                  calls := calls st @ [Call_sequence, Call_Insert hdoc,
                    Call_Errorf ''failed to write status history: %v'' (StoreError msg)]\<rparr>
           | None \<Rightarrow>
               if nextSeq st \<in> set (map Id_h (history st))
               then st\<lparr>nextSeq := nextSeq st + 1,
                  calls := calls st @ [Call_sequence, Call_Insert hdoc,
                    Call_Errorf ''failed to write status history: %v''
                      (StoreError ''duplicate key'')]\<rparr>
               else st\<lparr>nextSeq := nextSeq st + 1,
                  history := history st @ [hdoc],
                  calls := calls st @ [Call_sequence, Call_Insert hdoc]\<rparr>))"
  by (simp add: probablyUpdateStatusHistory_def sequence_def Insert_def Errorf_def called_def
        Let_def newHistoryDoc_def split: option.splits)

lemma recorder_statuses:
  "statuses (probablyUpdateStatusHistory st key doc sf insf) = statuses st"
  by (simp add: recorder_table Let_def split: option.splits)

lemma setStatus_error_table:
  "fst (setStatus esc st params w) =
     (if \<not> token_ok params then Some (Annotated ''cannot set status'' Invalidated)
      else case w_readTxnRevno_fails w of
        Some msg \<Rightarrow> Some (Annotated ''cannot set status'' (StoreError msg))
      | None \<Rightarrow>
         (case statuses st (p_globalKey params) of
            None \<Rightarrow> Some (Annotated ''cannot set status'' (NotFound (p_badge params)))
          | Some (old, revno) \<Rightarrow>
             (case w_RunTransaction_fails w of
                Some msg \<Rightarrow> Some (Annotated ''cannot set status'' (StoreError msg))
              | None \<Rightarrow>
                 if revno_after w st (p_globalKey params) = Some revno then None
                 else Some (Annotated ''cannot set status'' (NotFound (p_badge params))))))"
  by (auto simp: setStatus_def Let_def run_def updateStatusSource_def wrapSource_def
        readTxnRevno_def RunTransaction_def called_def DeferredAnnotatef_def Trace_def
        token_ok_def revno_after_def assertion_holds_def recorder_statuses
        split: option.splits prod.splits sum.splits)

lemma setStatus_statuses_table:
  "statuses (snd (setStatus esc st params w)) =
     (if \<not> token_ok params then statuses st
      else case w_readTxnRevno_fails w of
        Some msg \<Rightarrow> statuses st
      | None \<Rightarrow>
         (case statuses st (p_globalKey params) of
            None \<Rightarrow> statuses st
          | Some (old, revno) \<Rightarrow>
             (case w_RunTransaction_fails w of
                Some msg \<Rightarrow> w_concurrent w (statuses st)
              | None \<Rightarrow>
                 if revno_after w st (p_globalKey params) = Some revno
                 then (w_concurrent w (statuses st))(p_globalKey params \<mapsto>
                        (newStatusDoc esc params (nowToTheSecond (w_clock w)), revno + 1))
                 else w_concurrent w (statuses st))))"
  by (auto simp: setStatus_def Let_def run_def updateStatusSource_def wrapSource_def
        readTxnRevno_def RunTransaction_def called_def DeferredAnnotatef_def Trace_def
        token_ok_def revno_after_def assertion_holds_def recorder_statuses apply_Op_def
        split: option.splits prod.splits sum.splits)

lemma setStatus_history:
  "history (snd (setStatus esc st params w)) =
     history (probablyUpdateStatusHistory st (p_globalKey params)
       (newStatusDoc esc params (nowToTheSecond (w_clock w)))
       (w_sequence_fails w) (w_Insert_fails w))"
  by (auto simp: setStatus_def Let_def run_def updateStatusSource_def wrapSource_def
        readTxnRevno_def RunTransaction_def called_def apply_Op_def
        split: option.splits prod.splits sum.splits)

lemma setStatus_calls:
  "\<exists>upd. calls (snd (setStatus esc st params w)) =
     calls (probablyUpdateStatusHistory st (p_globalKey params)
       (newStatusDoc esc params (nowToTheSecond (w_clock w)))
       (w_sequence_fails w) (w_Insert_fails w)) @ upd
     \<and> upd \<noteq> [] \<and> list_all update_call upd"
  by (auto simp: setStatus_def Let_def run_def updateStatusSource_def wrapSource_def
        readTxnRevno_def RunTransaction_def called_def apply_Op_def
        split: option.splits prod.splits sum.splits)

lemma recorder_calls:
  "\<exists>rec. calls (probablyUpdateStatusHistory st key doc sf insf) = calls st @ rec
     \<and> rec \<noteq> [] \<and> hd rec = Call_sequence \<and> list_all recorder_call rec"
  by (auto simp: recorder_table Let_def split: option.splits)

text \<open>
  C3. \<open>setStatus\<close> returns \<open>NotFound\<close> with the caller's badge (under the annotation
  that every error of \<open>setStatus\<close> gets) in exactly two situations, both with the token
  absent or valid and the revision read not failing: the key has no current-status
  document, or the transaction is executed and its revision assertion does not hold. A
  failure of the store itself, in the revision read or in the transaction, comes back as
  that error annotated with "cannot set status", and is not a not-found error.
\<close>

theorem setStatus_NotFound_cases:
  "(fst (setStatus esc st params w)
        = Some (Annotated ''cannot set status'' (NotFound (p_badge params)))
      \<longleftrightarrow> token_ok params \<and> w_readTxnRevno_fails w = None
          \<and> (statuses st (p_globalKey params) = None
             \<or> (w_RunTransaction_fails w = None
                \<and> (\<exists>old revno. statuses st (p_globalKey params) = Some (old, revno)
                      \<and> revno_after w st (p_globalKey params) \<noteq> Some revno))))
   \<and> ((\<exists>e. fst (setStatus esc st params w) = Some e \<and> IsNotFound e)
      \<longleftrightarrow> fst (setStatus esc st params w)
            = Some (Annotated ''cannot set status'' (NotFound (p_badge params))))
   \<and> (\<forall>msg. token_ok params \<and> w_readTxnRevno_fails w = Some msg
        \<longrightarrow> fst (setStatus esc st params w)
            = Some (Annotated ''cannot set status'' (StoreError msg)))
   \<and> (\<forall>msg. token_ok params \<and> w_readTxnRevno_fails w = None
            \<and> statuses st (p_globalKey params) \<noteq> None
            \<and> w_RunTransaction_fails w = Some msg
        \<longrightarrow> fst (setStatus esc st params w)
            = Some (Annotated ''cannot set status'' (StoreError msg)))
   \<and> (\<not> token_ok params
        \<longrightarrow> fst (setStatus esc st params w) = Some (Annotated ''cannot set status'' Invalidated))
   \<and> (\<forall>e. fst (setStatus esc st params w) = Some e
        \<longrightarrow> (\<exists>e'. e = Annotated ''cannot set status'' e'))"
  unfolding setStatus_error_table
  by (auto simp: IsNotFound_def split: option.splits)

lemma ex_state_statuses:
  "statuses ex_state ''u#app/0'' = Some (ex_doc, 7)" "statuses ex_state ''u#app/9'' = None"
  by (simp_all add: ex_state_def)

lemma ex_world_fields:
  "w_clock ex_world = 7123456789" "w_sequence_fails ex_world = None"
  "w_Insert_fails ex_world = None" "w_readTxnRevno_fails ex_world = None"
  "w_concurrent ex_world = (\<lambda>s. s)" "w_RunTransaction_fails ex_world = None"
  by (simp_all add: ex_world_def)

lemma ex_params_fields:
  "p_badge ex_params = ''unit''" "p_globalKey ex_params = ''u#app/0''"
  "p_status ex_params = ''active''" "p_message ex_params = ''ready''"
  "p_rawData ex_params = [(''a.b'', VScalar ''x'')]" "p_token ex_params = None"
  by (simp_all add: ex_params_def)

theorem setStatus_NotFound_cases_witness:
  "fst (setStatus ex_esc ex_state (ex_params\<lparr>p_globalKey := ''u#app/9''\<rparr>) ex_world)
     = Some (Annotated ''cannot set status'' (NotFound ''unit''))
   \<and> fst (setStatus ex_esc ex_state ex_params
           (ex_world\<lparr>w_concurrent := (\<lambda>s. s(''u#app/0'' \<mapsto> (ex_doc, 8)))\<rparr>))
     = Some (Annotated ''cannot set status'' (NotFound ''unit''))
   \<and> fst (setStatus ex_esc ex_state ex_params (ex_world\<lparr>w_RunTransaction_fails := Some ''EOF''\<rparr>))
     = Some (Annotated ''cannot set status'' (StoreError ''EOF''))
   \<and> fst (setStatus ex_esc ex_state ex_params (ex_world\<lparr>w_readTxnRevno_fails := Some ''EOF''\<rparr>))
     = Some (Annotated ''cannot set status'' (StoreError ''EOF''))"
  using
    setStatus_NotFound_cases[of ex_esc ex_state "ex_params\<lparr>p_globalKey := ''u#app/9''\<rparr>" ex_world]
    setStatus_NotFound_cases[of ex_esc ex_state ex_params
      "ex_world\<lparr>w_concurrent := (\<lambda>s. s(''u#app/0'' \<mapsto> (ex_doc, 8)))\<rparr>"]
    setStatus_NotFound_cases[of ex_esc ex_state ex_params
      "ex_world\<lparr>w_RunTransaction_fails := Some ''EOF''\<rparr>"]
    setStatus_NotFound_cases[of ex_esc ex_state ex_params
      "ex_world\<lparr>w_readTxnRevno_fails := Some ''EOF''\<rparr>"]
  by (simp add: ex_state_statuses ex_world_fields ex_params_fields token_ok_def revno_after_def)

text \<open>
  C5. A \<open>setStatus\<close> call whose token is invalidated leaves the collection of
  current-status documents as it was, the document of the key included, and returns the
  invalidation, annotated, to the caller.
\<close>

theorem setStatus_invalidated_token:
  assumes "p_token params = Some tok" and "\<not> valid tok"
  shows "statuses (snd (setStatus esc st params w)) = statuses st
         \<and> statuses (snd (setStatus esc st params w)) (p_globalKey params)
             = statuses st (p_globalKey params)
         \<and> fst (setStatus esc st params w) = Some (Annotated ''cannot set status'' Invalidated)"
  using assms by (simp add: setStatus_statuses_table setStatus_error_table token_ok_def)

theorem setStatus_invalidated_token_witness:
  "statuses (snd (setStatus ex_esc ex_state (ex_params\<lparr>p_token := Some \<lparr>valid = False\<rparr>\<rparr>) ex_world))
       ''u#app/0'' = Some (ex_doc, 7)
   \<and> fst (setStatus ex_esc ex_state (ex_params\<lparr>p_token := Some \<lparr>valid = False\<rparr>\<rparr>) ex_world)
       = Some (Annotated ''cannot set status'' Invalidated)"
  using setStatus_invalidated_token[of "ex_params\<lparr>p_token := Some \<lparr>valid = False\<rparr>\<rparr>"
      "\<lparr>valid = False\<rparr>" ex_esc ex_state ex_world]
  by (simp add: ex_state_statuses ex_params_fields)

text \<open>
  C7. The history recorder has no error to return and leaves the current-status
  documents alone. When the sequence allocation fails, the failure is logged, nothing is
  inserted, and no insert is attempted: the allocation and the log are the only calls
  made. When the insert fails, the failure is logged and the history is as before.
  The outcome of \<open>setStatus\<close> and the current-status documents it leaves do not depend
  on whether the recorder's calls fail.
\<close>

theorem recorder_swallows_failures:
  "statuses (probablyUpdateStatusHistory st key doc sf insf) = statuses st
   \<and> (\<forall>msg. sf = Some msg \<longrightarrow>
         history (probablyUpdateStatusHistory st key doc sf insf) = history st
         \<and> calls (probablyUpdateStatusHistory st key doc sf insf)
             = calls st @ [Call_sequence,
                 Call_Errorf ''failed to generate id for status history: %v'' (StoreError msg)])
   \<and> (\<forall>msg. sf = None \<and> insf = Some msg \<longrightarrow>
         history (probablyUpdateStatusHistory st key doc sf insf) = history st
         \<and> calls (probablyUpdateStatusHistory st key doc sf insf)
             = calls st @ [Call_sequence,
                 Call_Insert (newHistoryDoc (nextSeq st) (EnvironUUID st) key doc),
                 Call_Errorf ''failed to write status history: %v'' (StoreError msg)])
   \<and> fst (setStatus esc st params (w\<lparr>w_sequence_fails := sf, w_Insert_fails := insf\<rparr>))
       = fst (setStatus esc st params (w\<lparr>w_sequence_fails := None, w_Insert_fails := None\<rparr>))
   \<and> statuses (snd (setStatus esc st params (w\<lparr>w_sequence_fails := sf, w_Insert_fails := insf\<rparr>)))
       = statuses (snd (setStatus esc st params
                          (w\<lparr>w_sequence_fails := None, w_Insert_fails := None\<rparr>)))"
proof -
  have "statuses (probablyUpdateStatusHistory st key doc sf insf) = statuses st"
    by (rule recorder_statuses)
  moreover have "\<forall>msg. sf = Some msg \<longrightarrow>
         history (probablyUpdateStatusHistory st key doc sf insf) = history st
         \<and> calls (probablyUpdateStatusHistory st key doc sf insf)
             = calls st @ [Call_sequence,
                 Call_Errorf ''failed to generate id for status history: %v'' (StoreError msg)]"
    by (simp add: recorder_table)
  moreover have "\<forall>msg. sf = None \<and> insf = Some msg \<longrightarrow>
         history (probablyUpdateStatusHistory st key doc sf insf) = history st
         \<and> calls (probablyUpdateStatusHistory st key doc sf insf)
             = calls st @ [Call_sequence,
                 Call_Insert (newHistoryDoc (nextSeq st) (EnvironUUID st) key doc),
                 Call_Errorf ''failed to write status history: %v'' (StoreError msg)]"
    by (simp add: recorder_table Let_def)
  moreover have "fst (setStatus esc st params (w\<lparr>w_sequence_fails := sf, w_Insert_fails := insf\<rparr>))
       = fst (setStatus esc st params (w\<lparr>w_sequence_fails := None, w_Insert_fails := None\<rparr>))"
    by (auto simp: setStatus_error_table revno_after_def split: option.splits)
  moreover have "statuses (snd (setStatus esc st params
                     (w\<lparr>w_sequence_fails := sf, w_Insert_fails := insf\<rparr>)))
       = statuses (snd (setStatus esc st params
                          (w\<lparr>w_sequence_fails := None, w_Insert_fails := None\<rparr>)))"
    by (auto simp: setStatus_statuses_table revno_after_def split: option.splits)
  ultimately show ?thesis by blast
qed

theorem recorder_swallows_failures_witness:
  "calls (probablyUpdateStatusHistory ex_state ''u#app/0'' ex_doc (Some ''EOF'') None)
     = [Call_sequence,
        Call_Errorf ''failed to generate id for status history: %v'' (StoreError ''EOF'')]
   \<and> history (probablyUpdateStatusHistory ex_state ''u#app/0'' ex_doc (Some ''EOF'') None)
     = history ex_state
   \<and> calls (probablyUpdateStatusHistory ex_state ''u#app/0'' ex_doc None (Some ''EOF''))
     = [Call_sequence,
        Call_Insert (newHistoryDoc 7 ''env-1'' ''u#app/0'' ex_doc),
        Call_Errorf ''failed to write status history: %v'' (StoreError ''EOF'')]
   \<and> fst (setStatus ex_esc ex_state ex_params
           (ex_world\<lparr>w_sequence_fails := Some ''EOF'', w_Insert_fails := None\<rparr>)) = None"
proof -
  have fields: "calls ex_state = []" "nextSeq ex_state = 7" "EnvironUUID ex_state = ''env-1''"
    by (simp_all add: ex_state_def)
  have ok: "fst (setStatus ex_esc ex_state ex_params
                  (ex_world\<lparr>w_sequence_fails := None, w_Insert_fails := None\<rparr>)) = None"
    by (simp add: setStatus_error_table ex_state_statuses ex_world_fields ex_params_fields
          token_ok_def revno_after_def)
  show ?thesis
    using recorder_swallows_failures[of ex_state "''u#app/0''" ex_doc "Some ''EOF''" None
        ex_esc ex_params ex_world]
      recorder_swallows_failures[of ex_state "''u#app/0''" ex_doc None "Some ''EOF''"
        ex_esc ex_params ex_world]
      fields ok
    by simp
qed

text \<open>
  C8. In every \<open>setStatus\<close> execution the calls of the history recorder, the sequence
  allocation first, all come before the calls of the conditional update (the token check,
  the revision read, the transaction), and the history is what the recorder left,
  whatever the outcome of the update: when its two calls succeed, the history has the
  new entry even if \<open>setStatus\<close> returns an error. The timestamp of that entry, and of
  the current-status document after a successful write, is the clock reading truncated
  to a whole second.
\<close>

theorem setStatus_history_first:
  "(\<exists>rec upd.
       calls (snd (setStatus esc st params w)) = calls st @ rec @ upd
       \<and> rec \<noteq> [] \<and> hd rec = Call_sequence \<and> list_all recorder_call rec
       \<and> upd \<noteq> [] \<and> list_all update_call upd)
   \<and> (w_sequence_fails w = None \<and> w_Insert_fails w = None
        \<and> nextSeq st \<notin> set (map Id_h (history st))
      \<longrightarrow> history (snd (setStatus esc st params w))
            = history st @
              [\<lparr>Id_h = nextSeq st, EnvUUID_h = EnvironUUID st,
                EntityId_h = p_globalKey params, Status_h = p_status params,
                StatusInfo_h = p_message params,
                StatusData_h = escapeKeys esc (p_rawData params),
                Updated_h = Some (nowToTheSecond (w_clock w))\<rparr>])
   \<and> (fst (setStatus esc st params w) = None
      \<longrightarrow> (\<exists>doc revno.
            statuses (snd (setStatus esc st params w)) (p_globalKey params) = Some (doc, revno)
            \<and> Updated doc = Some (nowToTheSecond (w_clock w))))
   \<and> nowToTheSecond (w_clock w) mod 1000000000 = 0
   \<and> nowToTheSecond (w_clock w) \<le> w_clock w
   \<and> w_clock w < nowToTheSecond (w_clock w) + 1000000000"
proof -
  let ?doc = "newStatusDoc esc params (nowToTheSecond (w_clock w))"
  let ?st1 = "probablyUpdateStatusHistory st (p_globalKey params) ?doc
                (w_sequence_fails w) (w_Insert_fails w)"
  obtain upd where upd: "calls (snd (setStatus esc st params w)) = calls ?st1 @ upd"
      "upd \<noteq> []" "list_all update_call upd"
    using setStatus_calls[of esc st params w] by blast
  obtain rec where rec: "calls ?st1 = calls st @ rec" "rec \<noteq> []" "hd rec = Call_sequence"
      "list_all recorder_call rec"
    using recorder_calls[of st "p_globalKey params" ?doc "w_sequence_fails w" "w_Insert_fails w"]
    by blast
  have order: "\<exists>rec upd.
       calls (snd (setStatus esc st params w)) = calls st @ rec @ upd
       \<and> rec \<noteq> [] \<and> hd rec = Call_sequence \<and> list_all recorder_call rec
       \<and> upd \<noteq> [] \<and> list_all update_call upd"
    using upd rec by auto
  have hist: "w_sequence_fails w = None \<and> w_Insert_fails w = None
        \<and> nextSeq st \<notin> set (map Id_h (history st))
      \<longrightarrow> history (snd (setStatus esc st params w))
            = history st @
              [\<lparr>Id_h = nextSeq st, EnvUUID_h = EnvironUUID st,
                EntityId_h = p_globalKey params, Status_h = p_status params,
                StatusInfo_h = p_message params,
                StatusData_h = escapeKeys esc (p_rawData params),
                Updated_h = Some (nowToTheSecond (w_clock w))\<rparr>]"
    by (simp add: setStatus_history recorder_table Let_def newHistoryDoc_def newStatusDoc_def)
  have cur: "fst (setStatus esc st params w) = None
      \<longrightarrow> (\<exists>doc revno.
            statuses (snd (setStatus esc st params w)) (p_globalKey params) = Some (doc, revno)
            \<and> Updated doc = Some (nowToTheSecond (w_clock w)))"
    by (auto simp: setStatus_error_table setStatus_statuses_table newStatusDoc_def
          split: option.splits if_splits)
  have trunc: "nowToTheSecond (w_clock w) mod 1000000000 = 0
      \<and> nowToTheSecond (w_clock w) \<le> w_clock w
      \<and> w_clock w < nowToTheSecond (w_clock w) + 1000000000"
    unfolding nowToTheSecond_def by presburger
  show ?thesis using order hist cur trunc by blast
qed

theorem setStatus_history_first_witness:
  "fst (setStatus ex_esc ex_state (ex_params\<lparr>p_globalKey := ''u#app/9''\<rparr>) ex_world)
     = Some (Annotated ''cannot set status'' (NotFound ''unit''))
   \<and> history (snd (setStatus ex_esc ex_state (ex_params\<lparr>p_globalKey := ''u#app/9''\<rparr>) ex_world))
     = history ex_state @
       [\<lparr>Id_h = 7, EnvUUID_h = ''env-1'', EntityId_h = ''u#app/9'', Status_h = ''active'',
         StatusInfo_h = ''ready'', StatusData_h = [(''a|b'', VScalar ''x'')],
         Updated_h = Some 7000000000\<rparr>]
   \<and> fst (setStatus ex_esc ex_state ex_params ex_world) = None
   \<and> (\<exists>doc revno. statuses (snd (setStatus ex_esc ex_state ex_params ex_world)) ''u#app/0''
         = Some (doc, revno) \<and> Updated doc = Some 7000000000)"
proof -
  have fields: "nextSeq ex_state = 7" "EnvironUUID ex_state = ''env-1''"
      "nextSeq ex_state \<notin> set (map Id_h (history ex_state))"
    by (simp_all add: ex_state_def ex_entry_def)
  have now: "nowToTheSecond 7123456789 = 7000000000"
    by (simp add: nowToTheSecond_def)
  have data: "escapeKeys ex_esc [(''a.b'', VScalar ''x'')] = [(''a|b'', VScalar ''x'')]"
    by (simp add: escapeKeys_def ex_esc_def)
  have e1: "fst (setStatus ex_esc ex_state (ex_params\<lparr>p_globalKey := ''u#app/9''\<rparr>) ex_world)
     = Some (Annotated ''cannot set status'' (NotFound ''unit''))"
    by (simp add: setStatus_error_table ex_state_statuses ex_world_fields ex_params_fields
          token_ok_def)
  have e2: "fst (setStatus ex_esc ex_state ex_params ex_world) = None"
    by (simp add: setStatus_error_table ex_state_statuses ex_world_fields ex_params_fields
          token_ok_def revno_after_def)
  show ?thesis
    using setStatus_history_first[of ex_esc ex_state "ex_params\<lparr>p_globalKey := ''u#app/9''\<rparr>" ex_world]
      setStatus_history_first[of ex_esc ex_state ex_params ex_world]
      fields now data e1 e2
    by (simp add: ex_world_fields ex_params_fields)
qed

text \<open>
  C9. After a successful \<open>setStatus\<close> the current-status document of the key is the
  document built from the parameters, whatever it was before; that document has
  \<open>NeverSet\<close> false and an empty environment identifier.
\<close>

theorem setStatus_success_overwrites:
  assumes "fst (setStatus esc st params w) = None"
  shows "\<exists>revno. statuses (snd (setStatus esc st params w)) (p_globalKey params)
           = Some (\<lparr>EnvUUID = [], Status = p_status params, StatusInfo = p_message params,
                    StatusData = escapeKeys esc (p_rawData params),
                    Updated = Some (nowToTheSecond (w_clock w)), NeverSet = False\<rparr>, revno)"
  using assms
  by (auto simp: setStatus_error_table setStatus_statuses_table newStatusDoc_def
        split: option.splits if_splits)

theorem setStatus_success_overwrites_witness:
  "NeverSet (fst (the (statuses ex_state ''u#app/0''))) = True
   \<and> EnvUUID (fst (the (statuses ex_state ''u#app/0''))) = ''env-1''
   \<and> fst (setStatus ex_esc ex_state ex_params ex_world) = None
   \<and> (\<exists>revno. statuses (snd (setStatus ex_esc ex_state ex_params ex_world)) ''u#app/0''
        = Some (\<lparr>EnvUUID = [], Status = ''active'', StatusInfo = ''ready'',
                 StatusData = [(''a|b'', VScalar ''x'')],
                 Updated = Some 7000000000, NeverSet = False\<rparr>, revno))"
proof -
  have now: "nowToTheSecond 7123456789 = 7000000000"
    by (simp add: nowToTheSecond_def)
  have data: "escapeKeys ex_esc [(''a.b'', VScalar ''x'')] = [(''a|b'', VScalar ''x'')]"
    by (simp add: escapeKeys_def ex_esc_def)
  have ok: "fst (setStatus ex_esc ex_state ex_params ex_world) = None"
    by (simp add: setStatus_error_table ex_state_statuses ex_world_fields ex_params_fields
          token_ok_def revno_after_def)
  show ?thesis
    using setStatus_success_overwrites[OF ok] now data ok
    by (simp add: ex_state_statuses ex_world_fields ex_params_fields ex_doc_def)
qed

section \<open>Reading and pruning the history\<close>

lemma Sort_desc_id_sorted:
  assumes "unique_ids docs"
  shows "sorted_wrt (\<lambda>a b. Id_h b < Id_h a) (Sort_desc_id (Find_entityid key docs))"
proof -
  let ?own = "Find_entityid key docs"
  let ?S = "Sort_desc_id ?own"
  have d: "distinct (map Id_h ?own)"
    using assms unfolding unique_ids_def Find_entityid_def by (rule distinct_map_filter)
  have "distinct (map Id_h ?S)"
    using d unfolding Sort_desc_id_def by (simp add: distinct_map)
  then have "distinct (map (\<lambda>d. - Id_h d) ?S)"
    by (simp add: distinct_map inj_on_def)
  moreover have "sorted (map (\<lambda>d. - Id_h d) ?S)"
    unfolding Sort_desc_id_def by (rule sorted_sort_key)
  ultimately have "sorted_wrt (<) (map (\<lambda>d. - Id_h d) ?S)"
    by (simp add: strict_sorted_iff)
  then show ?thesis by (simp add: sorted_wrt_map)
qed

lemma filter_above_nth:
  assumes "sorted_wrt (\<lambda>a b. f b < f a) xs" and "i < length xs"
  shows "filter (\<lambda>x. (f (xs ! i) :: int) \<le> f x) xs = take (Suc i) xs"
proof -
  have nth_less: "\<And>a b. a < b \<Longrightarrow> b < length xs \<Longrightarrow> f (xs ! b) < f (xs ! a)"
    using assms(1) by (simp add: sorted_wrt_iff_nth_less)
  have front: "\<forall>x \<in> set (take (Suc i) xs). f (xs ! i) \<le> f x"
  proof
    fix x assume "x \<in> set (take (Suc i) xs)"
    then obtain j where j: "j < Suc i" "x = xs ! j"
      using assms(2) by (auto simp: in_set_conv_nth)
    show "f (xs ! i) \<le> f x"
    proof (cases "j = i")
      case True then show ?thesis using j by simp
    next
      case False
      then have "j < i" using j by simp
      then show ?thesis using nth_less[of j i] assms(2) j by simp
    qed
  qed
  have behind: "\<forall>x \<in> set (drop (Suc i) xs). \<not> f (xs ! i) \<le> f x"
  proof
    fix x assume "x \<in> set (drop (Suc i) xs)"
    then obtain j where j: "j < length xs - Suc i" "x = xs ! (Suc i + j)"
      by (auto simp: in_set_conv_nth)
    have "f (xs ! (Suc i + j)) < f (xs ! i)"
      using nth_less[of i "Suc i + j"] j(1) by simp
    then show "\<not> f (xs ! i) \<le> f x" using j by simp
  qed
  have "filter (\<lambda>x. f (xs ! i) \<le> f x) xs
        = filter (\<lambda>x. f (xs ! i) \<le> f x) (take (Suc i) xs @ drop (Suc i) xs)"
    by simp
  also have "\<dots> = take (Suc i) xs"
    unfolding filter_append using front behind by (simp add: filter_id_conv filter_empty_conv)
  finally show ?thesis .
qed

text \<open>
  C4, for a size from 1 to \<open>2^31 - 1\<close>, the sizes that the driver's 32-bit limit holds
  as they are. With the store giving each history document its own identifier: when the
  query reports no error, \<open>statusHistory\<close> returns the entries
  built from at most \<open>size\<close> documents of the entity, as many as the entity has if that is
  fewer, in strictly descending order of identifier, every document left out being older
  than every document returned, and each entry with the keys of its data unescaped; for an
  entity without history that is the empty sequence, with no error. It fails with
  \<open>NotFound "status history"\<close> exactly when the query reports not-found, and returns any
  other error of the query annotated.
\<close>

theorem statusHistory_outcomes:
  assumes "0 < size_h" and "size_h < 2147483648" and "unique_ids (history st)"
  shows
    "(statusHistory unesc st key size_h fails unfit = Inl (NotFound ''status history'')
        \<longleftrightarrow> fails = Some ErrNotFound)
     \<and> (fails = None \<longrightarrow>
          (\<exists>docs. statusHistory unesc st key size_h fails unfit
                = Inr (map (\<lambda>doc. \<lparr>Status_i = Status_h doc, Message_i = StatusInfo_h doc,
                                    Data_i = unescapeKeys unesc (StatusData_h doc),
                                    Since_i = Updated_h doc\<rparr>) docs)
             \<and> int (length docs) \<le> size_h
             \<and> length docs = min (nat size_h) (length (Find_entityid key (history st)))
             \<and> set docs \<subseteq> {d \<in> set (history st). EntityId_h d = key}
             \<and> sorted_wrt (\<lambda>a b. Id_h b < Id_h a) docs
             \<and> (\<forall>d \<in> set (history st). EntityId_h d = key \<and> d \<notin> set docs
                   \<longrightarrow> (\<forall>d' \<in> set docs. Id_h d < Id_h d'))))
     \<and> (fails = None \<and> Find_entityid key (history st) = []
          \<longrightarrow> statusHistory unesc st key size_h fails unfit = Inr [])
     \<and> (\<forall>e. fails = Some e \<and> e \<noteq> ErrNotFound
          \<longrightarrow> statusHistory unesc st key size_h fails unfit
              = Inl (Annotated ''cannot get status history'' e))"
proof -
  let ?own = "Find_entityid key (history st)"
  let ?S = "Sort_desc_id ?own"
  let ?docs = "take (nat size_h) ?S"
  have lim: "Limit size_h unfit ?S = Inr ?docs"
    using assms(1,2) by (simp add: Limit_def int32_def)
  have sorted: "sorted_wrt (\<lambda>a b. Id_h b < Id_h a) ?S"
    using assms(3) by (rule Sort_desc_id_sorted)
  have setS: "set ?S = {d \<in> set (history st). EntityId_h d = key}"
    by (auto simp: Sort_desc_id_def Find_entityid_def)
  have lenS: "length ?S = length ?own"
    by (simp add: Sort_desc_id_def)
  have res: "fails = None \<Longrightarrow> statusHistory unesc st key size_h fails unfit
      = Inr (map (\<lambda>doc. \<lparr>Status_i = Status_h doc, Message_i = StatusInfo_h doc,
                          Data_i = unescapeKeys unesc (StatusData_h doc),
                          Since_i = Updated_h doc\<rparr>) ?docs)"
    by (simp add: statusHistory_def lim historyInfo_def Let_def)
  have len: "int (length ?docs) \<le> size_h" "length ?docs = min (nat size_h) (length ?own)"
    using assms(1) lenS by auto
  have sub: "set ?docs \<subseteq> {d \<in> set (history st). EntityId_h d = key}"
    using set_take_subset[of "nat size_h" ?S] setS by simp
  have sorted_docs: "sorted_wrt (\<lambda>a b. Id_h b < Id_h a) ?docs"
    using sorted by (rule sorted_wrt_take)
  have older: "\<forall>d \<in> set (history st). EntityId_h d = key \<and> d \<notin> set ?docs
                   \<longrightarrow> (\<forall>d' \<in> set ?docs. Id_h d < Id_h d')"
  proof (intro ballI impI)
    fix d d' assume d: "d \<in> set (history st)" "EntityId_h d = key \<and> d \<notin> set ?docs"
      and d': "d' \<in> set ?docs"
    have "d \<in> set ?S" using d setS by simp
    then have "d \<in> set (take (nat size_h) ?S @ drop (nat size_h) ?S)" by simp
    then have "d \<in> set (drop (nat size_h) ?S)" using d(2) by (simp del: append_take_drop_id)
    moreover have "sorted_wrt (\<lambda>a b. Id_h b < Id_h a) (take (nat size_h) ?S @ drop (nat size_h) ?S)"
      using sorted by simp
    ultimately show "Id_h d < Id_h d'"
      using d' unfolding sorted_wrt_append by blast
  qed
  have empty: "fails = None \<and> ?own = [] \<longrightarrow> statusHistory unesc st key size_h fails unfit = Inr []"
    using res by (simp add: Sort_desc_id_def)
  have nf: "statusHistory unesc st key size_h fails unfit = Inl (NotFound ''status history'')
        \<longleftrightarrow> fails = Some ErrNotFound"
    by (auto simp: statusHistory_def lim Let_def split: option.splits)
  have other: "\<forall>e. fails = Some e \<and> e \<noteq> ErrNotFound
          \<longrightarrow> statusHistory unesc st key size_h fails unfit
              = Inl (Annotated ''cannot get status history'' e)"
    by (simp add: statusHistory_def)
  have main: "fails = None \<longrightarrow>
          (\<exists>docs. statusHistory unesc st key size_h fails unfit
                = Inr (map (\<lambda>doc. \<lparr>Status_i = Status_h doc, Message_i = StatusInfo_h doc,
                                    Data_i = unescapeKeys unesc (StatusData_h doc),
                                    Since_i = Updated_h doc\<rparr>) docs)
             \<and> int (length docs) \<le> size_h
             \<and> length docs = min (nat size_h) (length (Find_entityid key (history st)))
             \<and> set docs \<subseteq> {d \<in> set (history st). EntityId_h d = key}
             \<and> sorted_wrt (\<lambda>a b. Id_h b < Id_h a) docs
             \<and> (\<forall>d \<in> set (history st). EntityId_h d = key \<and> d \<notin> set docs
                   \<longrightarrow> (\<forall>d' \<in> set docs. Id_h d < Id_h d')))"
    using res len sub sorted_docs older by (intro impI exI[of _ ?docs]) simp
  show ?thesis using nf main empty other by (intro conjI)
qed

lemma ex_state_unique_ids: "unique_ids (history ex_state)"
  by (simp add: unique_ids_def ex_state_def ex_entry_def)

lemma ex_state_own:
  "Find_entityid ''u#app/0'' (history ex_state)
     = [ex_entry 1 ''u#app/0'', ex_entry 3 ''u#app/0'', ex_entry 4 ''u#app/0'',
        ex_entry 6 ''u#app/0'']"
  "Find_entityid ''m#0'' (history ex_state) = [ex_entry 2 ''m#0'', ex_entry 5 ''m#0'']"
  "Find_entityid ''u#app/9'' (history ex_state) = []"
  by (simp_all add: Find_entityid_def ex_state_def ex_entry_def)

theorem statusHistory_outcomes_witness:
  "(\<exists>docs :: historicalStatusDoc list. statusHistory ex_unesc ex_state ''u#app/0'' 3 None Inr
        = Inr (map (\<lambda>doc. \<lparr>Status_i = Status_h doc, Message_i = StatusInfo_h doc,
                            Data_i = unescapeKeys ex_unesc (StatusData_h doc),
                            Since_i = Updated_h doc\<rparr>) docs)
      \<and> length docs = 3
      \<and> sorted_wrt (\<lambda>a b. Id_h b < Id_h a) docs)
   \<and> statusHistory ex_unesc ex_state ''u#app/9'' 3 None Inr = Inr []
   \<and> statusHistory ex_unesc ex_state ''u#app/0'' 3 (Some ErrNotFound) Inr
       = Inl (NotFound ''status history'')
   \<and> statusHistory ex_unesc ex_state ''u#app/0'' 3 (Some (StoreError ''EOF'')) Inr
       = Inl (Annotated ''cannot get status history'' (StoreError ''EOF''))"
proof -
  have pos: "(0::int) < 3" by simp
  have small: "(3::int) < 2147483648" by simp
  note r = statusHistory_outcomes[OF pos small ex_state_unique_ids, where unesc = ex_unesc
      and unfit = Inr]
  have a: "\<exists>docs :: historicalStatusDoc list. statusHistory ex_unesc ex_state ''u#app/0'' 3 None Inr
        = Inr (map (\<lambda>doc. \<lparr>Status_i = Status_h doc, Message_i = StatusInfo_h doc,
                            Data_i = unescapeKeys ex_unesc (StatusData_h doc),
                            Since_i = Updated_h doc\<rparr>) docs)
      \<and> length docs = 3
      \<and> sorted_wrt (\<lambda>a b. Id_h b < Id_h a) docs"
  proof -
    have "\<exists>docs. statusHistory ex_unesc ex_state ''u#app/0'' 3 None Inr
                = Inr (map (\<lambda>doc. \<lparr>Status_i = Status_h doc, Message_i = StatusInfo_h doc,
                                    Data_i = unescapeKeys ex_unesc (StatusData_h doc),
                                    Since_i = Updated_h doc\<rparr>) docs)
             \<and> int (length docs) \<le> 3
             \<and> length docs = min (nat 3) (length (Find_entityid ''u#app/0'' (history ex_state)))
             \<and> set docs \<subseteq> {d \<in> set (history ex_state). EntityId_h d = ''u#app/0''}
             \<and> sorted_wrt (\<lambda>a b. Id_h b < Id_h a) docs
             \<and> (\<forall>d \<in> set (history ex_state). EntityId_h d = ''u#app/0'' \<and> d \<notin> set docs
                   \<longrightarrow> (\<forall>d' \<in> set docs. Id_h d < Id_h d'))"
      using r[of "''u#app/0''" None, THEN conjunct2, THEN conjunct1] by (rule mp) (rule refl)
    then show ?thesis
    proof (elim exE conjE)
      fix docs :: "historicalStatusDoc list"
      assume docs: "statusHistory ex_unesc ex_state ''u#app/0'' 3 None Inr
                = Inr (map (\<lambda>doc. \<lparr>Status_i = Status_h doc, Message_i = StatusInfo_h doc,
                                    Data_i = unescapeKeys ex_unesc (StatusData_h doc),
                                    Since_i = Updated_h doc\<rparr>) docs)"
        and len: "length docs = min (nat 3) (length (Find_entityid ''u#app/0'' (history ex_state)))"
        and srt: "sorted_wrt (\<lambda>a b. Id_h b < Id_h a) docs"
      from len have len3: "length docs = 3" by (simp add: ex_state_own)
      show ?thesis by (rule exI[of _ docs]) (simp only: docs len3 srt simp_thms)
    qed
  qed
  have b: "statusHistory ex_unesc ex_state ''u#app/9'' 3 None Inr = Inr []"
    using r[of "''u#app/9''" None] by (simp add: ex_state_own)
  have c: "statusHistory ex_unesc ex_state ''u#app/0'' 3 (Some ErrNotFound) Inr
       = Inl (NotFound ''status history'')"
    using r[of "''u#app/0''" "Some ErrNotFound"] by simp
  have d: "statusHistory ex_unesc ex_state ''u#app/0'' 3 (Some (StoreError ''EOF'')) Inr
       = Inl (Annotated ''cannot get status history'' (StoreError ''EOF''))"
    using r[of "''u#app/0''" "Some (StoreError ''EOF'')"] by simp
  show ?thesis using a b c d by (intro conjI)
qed

text \<open>
  With a size of zero the store applies no limit, and the whole history of the entity
  comes back: four entries where the bound would be none. The bound on the number of
  entries therefore does not hold for every size.
\<close>

lemma ex_state_sorted:
  "Sort_desc_id (Find_entityid ''u#app/0'' (history ex_state))
     = [ex_entry 6 ''u#app/0'', ex_entry 4 ''u#app/0'', ex_entry 3 ''u#app/0'',
        ex_entry 1 ''u#app/0'']"
  by (simp add: ex_state_own Sort_desc_id_def ex_entry_def)

theorem statusHistory_size_zero_counterexample:
  "statusHistory ex_unesc ex_state ''u#app/0'' 0 None Inr
     = Inr (map (historyInfo ex_unesc)
         [ex_entry 6 ''u#app/0'', ex_entry 4 ''u#app/0'', ex_entry 3 ''u#app/0'',
          ex_entry 1 ''u#app/0''])
   \<and> \<not> int (length (map (historyInfo ex_unesc)
         [ex_entry 6 ''u#app/0'', ex_entry 4 ''u#app/0'', ex_entry 3 ''u#app/0'',
          ex_entry 1 ''u#app/0''])) \<le> 0"
  by (simp add: statusHistory_def Limit_def int32_def ex_state_sorted)

text \<open>A size beyond 32 bits is cut down by the driver: \<open>2^32 + 2\<close> limits the result to
  two entries.\<close>

lemma statusHistory_size_beyond_32_bits:
  "statusHistory ex_unesc ex_state ''u#app/0'' 4294967298 None Inr
     = Inr (map (historyInfo ex_unesc) [ex_entry 6 ''u#app/0'', ex_entry 4 ''u#app/0''])"
  by (simp add: statusHistory_def Limit_def int32_def ex_state_sorted)

text \<open>The recorder and the pruner keep the identifiers of the history unique.\<close>

lemma recorder_unique_ids:
  "unique_ids (history st) \<Longrightarrow>
   unique_ids (history (probablyUpdateStatusHistory st key doc sf insf))"
  by (auto simp: recorder_table Let_def unique_ids_def newHistoryDoc_def split: option.splits)

lemma prune_range_unique_ids:
  "unique_ids (history st) \<Longrightarrow> unique_ids (history (snd (prune_range st n w ks)))"
proof (induction ks arbitrary: st)
  case Nil
  then show ?case by simp
next
  case (Cons k ks)
  have f: "\<And>c. unique_ids (filter (\<lambda>d. \<not> (EntityId_h d = k \<and> Id_h d < c)) (history st))"
    using Cons.prems unfolding unique_ids_def by (simp add: distinct_map_filter)
  show ?case
    using Cons.prems Cons.IH f
    by (auto simp: RemoveAll_def split: prod.splits option.splits sum.splits)
qed

lemma PruneStatusHistory_unique_ids:
  "unique_ids (history st) \<Longrightarrow> unique_ids (history (snd (PruneStatusHistory st n w)))"
  by (auto simp: PruneStatusHistory_def prune_range_unique_ids split: sum.splits)

text \<open>What one pass of the pruning loop does to the history, for one global key.\<close>

lemma int32_id: "- 2147483648 \<le> n \<Longrightarrow> n < 2147483648 \<Longrightarrow> int32 n = n"
  by (simp add: int32_def)

lemma getOldestTimeToKeep_ok:
  assumes "0 < n" and "n \<le> 2147483648"
  shows "getOldestTimeToKeep st key n None =
     (if nat n \<le> length (Find_entityid key (history st))
      then (Id_h (Sort_desc_id (Find_entityid key (history st)) ! (nat n - 1)), True, None)
      else (- 1, False, None))"
proof -
  let ?S = "Sort_desc_id (Find_entityid key (history st))"
  have len: "length ?S = length (Find_entityid key (history st))"
    by (simp add: Sort_desc_id_def)
  have skip: "Skip (n - 1) ?S = Inr (drop (nat n - 1) ?S)"
    using assms by (simp add: Skip_def int32_id nat_diff_distrib)
  show ?thesis
  proof (cases "nat n \<le> length ?S")
    case True
    then have "nat n - 1 < length ?S" using assms by simp
    then have "drop (nat n - 1) ?S = ?S ! (nat n - 1) # drop (Suc (nat n - 1)) ?S"
      by (simp add: Cons_nth_drop_Suc)
    then have "One (drop (nat n - 1) ?S) = Inr (?S ! (nat n - 1))"
      by (simp add: One_def)
    then show ?thesis using True len
      by (simp add: getOldestTimeToKeep_def skip Let_def)
  next
    case False
    then have "drop (nat n - 1) ?S = []" by simp
    then have "One (drop (nat n - 1) ?S) = Inl ErrNotFound"
      by (simp add: One_def)
    then show ?thesis using False len
      by (simp add: getOldestTimeToKeep_def skip Let_def)
  qed
qed

lemma getOldestTimeToKeep_fails:
  "getOldestTimeToKeep st key n (Some msg) = (- 1, False, Some (StoreError msg))"
  by (simp add: getOldestTimeToKeep_def Trace_def)
lemma RemoveAll_ok:
  "RemoveAll st key keepUpTo None
     = Inr (st\<lparr>history := filter (\<lambda>d. \<not> (EntityId_h d = key \<and> Id_h d < keepUpTo)) (history st)\<rparr>)"
  by (simp add: RemoveAll_def)

lemma prune_range_ok:
  assumes "0 < n" and "n \<le> 2147483648"
  shows "fst (prune_range st n w ks) = None
         \<Longrightarrow> snd (prune_range st n w ks) = st\<lparr>history := fold (prune_key n) ks (history st)\<rparr>"
proof (induction ks arbitrary: st)
  case Nil
  then show ?case by simp
next
  case (Cons k ks)
  show ?case
  proof (cases "w_One_fails w k")
    case (Some msg)
    then show ?thesis using Cons.prems by (simp add: getOldestTimeToKeep_fails)
  next
    case None
    note one = this
    show ?thesis
    proof (cases "nat n \<le> length (Find_entityid k (history st))")
      case False
      then have step: "prune_range st n w (k # ks) = prune_range st n w ks"
        using one by (simp add: getOldestTimeToKeep_ok[OF assms])
      have "prune_key n k (history st) = history st"
        using False by (simp add: prune_key_def)
      then show ?thesis using Cons.IH[of st] Cons.prems step by simp
    next
      case True
      let ?c = "Id_h (Sort_desc_id (Find_entityid k (history st)) ! (nat n - 1))"
      show ?thesis
      proof (cases "w_RemoveAll_fails w k")
        case (Some msg)
        then show ?thesis using Cons.prems True one
          by (simp add: getOldestTimeToKeep_ok[OF assms] RemoveAll_def)
      next
        case None
        let ?st1 = "st\<lparr>history := filter (\<lambda>d. \<not> (EntityId_h d = k \<and> Id_h d < ?c)) (history st)\<rparr>"
        have step: "prune_range st n w (k # ks) = prune_range ?st1 n w ks"
          using True one None by (simp add: getOldestTimeToKeep_ok[OF assms] RemoveAll_ok)
        have "history ?st1 = prune_key n k (history st)"
          using True by (simp add: prune_key_def)
        then show ?thesis using Cons.IH[of ?st1] Cons.prems step by simp
      qed
    qed
  qed
qed

lemma prune_range_no_failure:
  assumes "0 < n" and "\<forall>k. w_One_fails w k = None" and "\<forall>k. w_RemoveAll_fails w k = None"
    and "n \<le> 2147483648"
  shows "fst (prune_range st n w ks) = None"
proof (induction ks arbitrary: st)
  case Nil
  then show ?case by simp
next
  case (Cons k ks)
  then show ?case
    using assms(2,3) by (simp add: getOldestTimeToKeep_ok[OF assms(1) assms(4)] RemoveAll_ok)
qed

lemma Find_prune_key_other:
  "key \<noteq> k \<Longrightarrow> Find_entityid key (prune_key n k docs) = Find_entityid key docs"
  by (auto simp: prune_key_def Find_entityid_def intro: filter_cong)

lemma Find_prune_key_same:
  "Find_entityid key (prune_key n key docs) = kept n (Find_entityid key docs)"
  by (auto simp: prune_key_def kept_def Find_entityid_def not_less intro: filter_cong)

lemma Find_fold_prune_key:
  "distinct ks \<Longrightarrow>
   Find_entityid key (fold (prune_key n) ks docs)
     = (if key \<in> set ks then kept n (Find_entityid key docs) else Find_entityid key docs)"
proof (induction ks arbitrary: docs)
  case Nil
  then show ?case by simp
next
  case (Cons k ks)
  show ?case
  proof (cases "key = k")
    case True
    then have "key \<notin> set ks" using Cons.prems by simp
    then show ?thesis using Cons.IH[of "prune_key n k docs"] Cons.prems True
      by (simp add: Find_prune_key_same)
  next
    case False
    then show ?thesis using Cons.IH[of "prune_key n k docs"] Cons.prems
      by (simp add: Find_prune_key_other)
  qed
qed

lemma kept_newest:
  assumes "0 < n" and "unique_ids docs" and "nat n \<le> length (Find_entityid key docs)"
  shows "Sort_desc_id (kept n (Find_entityid key docs))
           = take (nat n) (Sort_desc_id (Find_entityid key docs))"
proof -
  let ?own = "Find_entityid key docs"
  let ?S = "Sort_desc_id ?own"
  have i: "nat n - 1 < length ?S" using assms(1,3) by (simp add: Sort_desc_id_def)
  have "Sort_desc_id (kept n ?own)
        = Sort_desc_id (filter (\<lambda>d. Id_h (?S ! (nat n - 1)) \<le> Id_h d) ?own)"
    using assms(3) by (simp add: kept_def)
  also have "\<dots> = filter (\<lambda>d. Id_h (?S ! (nat n - 1)) \<le> Id_h d) ?S"
    unfolding Sort_desc_id_def by (simp add: filter_sort)
  also have "\<dots> = take (Suc (nat n - 1)) ?S"
    using Sort_desc_id_sorted[OF assms(2)] i by (rule filter_above_nth)
  also have "Suc (nat n - 1) = nat n" using assms(1) by simp
  finally show ?thesis .
qed

lemma PruneStatusHistory_own:
  assumes "0 < n" and "fst (PruneStatusHistory st n w) = None" and "n \<le> 2147483648"
  shows "Find_entityid key (history (snd (PruneStatusHistory st n w)))
           = kept n (Find_entityid key (history st))"
proof -
  let ?ks = "remdups (map EntityId_h (history st))"
  have d: "w_Distinct_fails w = None"
    using assms(2)
    by (cases "w_Distinct_fails w") (simp_all add: PruneStatusHistory_def getEntitiesWithStatuses_def)
  then have eq: "PruneStatusHistory st n w = prune_range st n w ?ks"
    by (simp add: PruneStatusHistory_def getEntitiesWithStatuses_def)
  then have "snd (PruneStatusHistory st n w) = st\<lparr>history := fold (prune_key n) ?ks (history st)\<rparr>"
    using prune_range_ok[OF assms(1) assms(3), of st w ?ks] assms(2) by simp
  then have "Find_entityid key (history (snd (PruneStatusHistory st n w)))
      = (if key \<in> set ?ks then kept n (Find_entityid key (history st))
         else Find_entityid key (history st))"
    by (simp add: Find_fold_prune_key)
  moreover have "key \<notin> set ?ks \<Longrightarrow> Find_entityid key (history st) = []"
    by (auto simp: Find_entityid_def filter_empty_conv)
  moreover have "kept n [] = []"
    by (simp add: kept_def)
  ultimately show ?thesis by (cases "key \<in> set ?ks") simp_all
qed

text \<open>
  For a \<open>maxLogsPerEntity\<close> from 1 to \<open>2^31\<close>, where the skip \<open>maxLogsPerEntity - 1\<close>
  is what the driver's 32 bits hold, and with the store giving each history document its
  own identifier: \<open>PruneStatusHistory\<close> returns without error when the store reports
  no failure; and whenever it returns without error, an entity with at least
  \<open>maxLogsPerEntity\<close> entries keeps exactly its entries whose identifier is not below that
  of its \<open>maxLogsPerEntity\<close>-th most recent entry, which are its \<open>maxLogsPerEntity\<close> entries
  with the greatest identifiers; an entity with fewer entries keeps them all; and an entry
  is deleted only for being below the cutoff of its own entity.
\<close>

theorem PruneStatusHistory_keeps_newest:
  assumes "0 < n" and "unique_ids (history st)" and "n \<le> 2147483648"
  shows
    "(w_Distinct_fails w = None \<and> (\<forall>k. w_One_fails w k = None)
        \<and> (\<forall>k. w_RemoveAll_fails w k = None)
      \<longrightarrow> fst (PruneStatusHistory st n w) = None)
     \<and> (fst (PruneStatusHistory st n w) = None \<longrightarrow>
          (\<forall>key.
             (nat n \<le> length (Find_entityid key (history st)) \<longrightarrow>
                Find_entityid key (history (snd (PruneStatusHistory st n w)))
                  = filter (\<lambda>d. Id_h (Sort_desc_id (Find_entityid key (history st)) ! (nat n - 1))
                                  \<le> Id_h d)
                      (Find_entityid key (history st))
                \<and> Sort_desc_id (Find_entityid key (history (snd (PruneStatusHistory st n w))))
                  = take (nat n) (Sort_desc_id (Find_entityid key (history st)))
                \<and> length (Find_entityid key (history (snd (PruneStatusHistory st n w)))) = nat n)
             \<and> (length (Find_entityid key (history st)) < nat n \<longrightarrow>
                Find_entityid key (history (snd (PruneStatusHistory st n w)))
                  = Find_entityid key (history st)))
          \<and> (\<forall>d \<in> set (history st). d \<notin> set (history (snd (PruneStatusHistory st n w))) \<longrightarrow>
                nat n \<le> length (Find_entityid (EntityId_h d) (history st))
                \<and> Id_h d < Id_h (Sort_desc_id (Find_entityid (EntityId_h d) (history st))
                                   ! (nat n - 1))))"
proof (intro conjI impI allI ballI)
  assume "w_Distinct_fails w = None \<and> (\<forall>k. w_One_fails w k = None)
        \<and> (\<forall>k. w_RemoveAll_fails w k = None)"
  then show "fst (PruneStatusHistory st n w) = None"
    using prune_range_no_failure[OF assms(1) _ _ assms(3), of w st]
    by (simp add: PruneStatusHistory_def getEntitiesWithStatuses_def)
next
  fix key
  assume ok: "fst (PruneStatusHistory st n w) = None"
    and many: "nat n \<le> length (Find_entityid key (history st))"
  note own = PruneStatusHistory_own[OF assms(1) ok assms(3), of key]
  show "Find_entityid key (history (snd (PruneStatusHistory st n w)))
          = filter (\<lambda>d. Id_h (Sort_desc_id (Find_entityid key (history st)) ! (nat n - 1)) \<le> Id_h d)
              (Find_entityid key (history st))"
    using own many by (simp add: kept_def)
  show sorted: "Sort_desc_id (Find_entityid key (history (snd (PruneStatusHistory st n w))))
          = take (nat n) (Sort_desc_id (Find_entityid key (history st)))"
    using own kept_newest[OF assms(1,2) many] by simp
  have "length (Sort_desc_id (Find_entityid key (history (snd (PruneStatusHistory st n w)))))
          = nat n"
    unfolding sorted using many by (simp add: Sort_desc_id_def)
  then show "length (Find_entityid key (history (snd (PruneStatusHistory st n w)))) = nat n"
    by (simp add: Sort_desc_id_def)
next
  fix key
  assume ok: "fst (PruneStatusHistory st n w) = None"
    and few: "length (Find_entityid key (history st)) < nat n"
  show "Find_entityid key (history (snd (PruneStatusHistory st n w)))
          = Find_entityid key (history st)"
    using PruneStatusHistory_own[OF assms(1) ok assms(3), of key] few by (simp add: kept_def)
next
  fix d
  assume ok: "fst (PruneStatusHistory st n w) = None"
    and d: "d \<in> set (history st)" "d \<notin> set (history (snd (PruneStatusHistory st n w)))"
  let ?key = "EntityId_h d"
  note own = PruneStatusHistory_own[OF assms(1) ok assms(3), of ?key]
  have "d \<in> set (Find_entityid ?key (history st))"
    using d(1) by (simp add: Find_entityid_def)
  moreover have "d \<notin> set (Find_entityid ?key (history (snd (PruneStatusHistory st n w))))"
    using d(2) by (simp add: Find_entityid_def)
  ultimately have gone: "d \<in> set (Find_entityid ?key (history st))"
      "d \<notin> set (kept n (Find_entityid ?key (history st)))"
    using own by simp_all
  then show many: "nat n \<le> length (Find_entityid (EntityId_h d) (history st))"
    by (cases "nat n \<le> length (Find_entityid ?key (history st))") (simp_all add: kept_def)
  show "Id_h d < Id_h (Sort_desc_id (Find_entityid (EntityId_h d) (history st)) ! (nat n - 1))"
    using gone many by (simp add: kept_def)
qed

theorem PruneStatusHistory_keeps_newest_witness:
  "fst (PruneStatusHistory ex_state 3 ex_prune_world) = None
   \<and> map Id_h (Find_entityid ''u#app/0'' (history ex_state)) = [1, 3, 4, 6]
   \<and> map Id_h (Find_entityid ''u#app/0''
         (history (snd (PruneStatusHistory ex_state 3 ex_prune_world)))) = [3, 4, 6]
   \<and> Find_entityid ''m#0'' (history (snd (PruneStatusHistory ex_state 3 ex_prune_world)))
       = [ex_entry 2 ''m#0'', ex_entry 5 ''m#0'']"
proof -
  have pos: "(0::int) < 3" by simp
  have small: "(3::int) \<le> 2147483648" by simp
  note r = PruneStatusHistory_keeps_newest[OF pos ex_state_unique_ids small, of ex_prune_world]
  have nofail: "w_Distinct_fails ex_prune_world = None \<and> (\<forall>k. w_One_fails ex_prune_world k = None)
        \<and> (\<forall>k. w_RemoveAll_fails ex_prune_world k = None)"
    by (simp add: ex_prune_world_def)
  have ok: "fst (PruneStatusHistory ex_state 3 ex_prune_world) = None"
    using r nofail by blast
  have sorted: "Sort_desc_id (Find_entityid ''u#app/0'' (history ex_state)) ! (nat 3 - 1)
      = ex_entry 3 ''u#app/0''"
    by (simp add: ex_state_own Sort_desc_id_def ex_entry_def)
  have a: "map Id_h (Find_entityid ''u#app/0'' (history ex_state)) = [1, 3, 4, 6]"
    by (simp add: ex_state_own ex_entry_def)
  have "Find_entityid ''u#app/0'' (history (snd (PruneStatusHistory ex_state 3 ex_prune_world)))
      = filter (\<lambda>d. Id_h (Sort_desc_id (Find_entityid ''u#app/0'' (history ex_state)) ! (nat 3 - 1))
                      \<le> Id_h d)
          (Find_entityid ''u#app/0'' (history ex_state))"
    using r ok by (simp add: ex_state_own)
  then have b: "map Id_h (Find_entityid ''u#app/0''
         (history (snd (PruneStatusHistory ex_state 3 ex_prune_world)))) = [3, 4, 6]"
    unfolding sorted by (simp add: ex_state_own ex_entry_def)
  have c: "Find_entityid ''m#0'' (history (snd (PruneStatusHistory ex_state 3 ex_prune_world)))
       = [ex_entry 2 ''m#0'', ex_entry 5 ''m#0'']"
    using r ok by (simp add: ex_state_own)
  show ?thesis using ok a b c by (intro conjI)
qed

lemma ex_state_keys: "remdups (map EntityId_h (history ex_state)) = [''m#0'', ''u#app/0'']"
  by (simp add: ex_state_def ex_entry_def)

lemma Skip_beyond_32_bits: "Skip 4294967296 docs = Inr docs"
  by (simp add: Skip_def int32_def)

text \<open>
  C1. The claim has entities with fewer entries than the threshold left untouched, and
  the comment on \<open>PruneStatusHistory\<close> has only the \<open>maxLogsPerEntity\<close> newest records
  of an entity removed from. The code sends the skip \<open>maxLogsPerEntity - 1\<close> through the
  32 bits of the driver: for \<open>maxLogsPerEntity = 2^32 + 1\<close> the skip sent is 0, the cutoff
  found for each entity is its newest identifier, and an entity with four entries and one
  with two, both far below the threshold, are each cut down to their newest entry,
  without any error.
\<close>

theorem PruneStatusHistory_skip_beyond_32_bits:
  "map Id_h (Find_entityid ''u#app/0'' (history ex_state)) = [1, 3, 4, 6]
   \<and> map Id_h (Find_entityid ''m#0'' (history ex_state)) = [2, 5]
   \<and> fst (PruneStatusHistory ex_state 4294967297 ex_prune_world) = None
   \<and> map Id_h (history (snd (PruneStatusHistory ex_state 4294967297 ex_prune_world))) = [5, 6]"
proof -
  let ?n = "4294967297 :: int"
  have g1: "getOldestTimeToKeep ex_state ''m#0'' ?n None = (5, True, None)"
    by (simp add: getOldestTimeToKeep_def Skip_beyond_32_bits One_def Find_entityid_def
          Sort_desc_id_def ex_state_def ex_entry_def)
  let ?st1 = "ex_state\<lparr>history := [ex_entry 1 ''u#app/0'', ex_entry 3 ''u#app/0'',
                 ex_entry 4 ''u#app/0'', ex_entry 5 ''m#0'', ex_entry 6 ''u#app/0'']\<rparr>"
  have r1: "RemoveAll ex_state ''m#0'' 5 None = Inr ?st1"
    by (simp add: RemoveAll_def ex_state_def ex_entry_def)
  have g2: "getOldestTimeToKeep ?st1 ''u#app/0'' ?n None = (6, True, None)"
    by (simp add: getOldestTimeToKeep_def Skip_beyond_32_bits One_def Find_entityid_def
          Sort_desc_id_def ex_state_def ex_entry_def)
  let ?st2 = "ex_state\<lparr>history := [ex_entry 5 ''m#0'', ex_entry 6 ''u#app/0'']\<rparr>"
  have r2: "RemoveAll ?st1 ''u#app/0'' 6 None = Inr ?st2"
    by (simp add: RemoveAll_def ex_state_def ex_entry_def)
  have w: "w_Distinct_fails ex_prune_world = None" "w_One_fails ex_prune_world = (\<lambda>key. None)"
      "w_RemoveAll_fails ex_prune_world = (\<lambda>key. None)"
    by (simp_all add: ex_prune_world_def)
  have "PruneStatusHistory ex_state ?n ex_prune_world = (None, ?st2)"
    by (simp add: PruneStatusHistory_def getEntitiesWithStatuses_def ex_state_keys w g1 r1 g2 r2)
  then show ?thesis
    by (simp add: ex_state_own ex_entry_def)
qed

section \<open>The key transform leaves its argument alone\<close>

lemma mapKeys_h_frame:
  "mapKeys_h n f input h = Some (r, h') \<Longrightarrow>
     r = length h \<and> length h < length h' \<and> take (length h) h' = h"
  "range_h n f input keys result h = Some h'' \<Longrightarrow> L \<le> result \<Longrightarrow> result < length h \<Longrightarrow>
     length h \<le> length h'' \<and> take L h'' = take L h"
proof (induction n f input h and n f input keys result h arbitrary: r h' and h'' L
    rule: mapKeys_h_range_h.induct)
  case (1 f input h)
  then show ?case by simp
next
  case (2 n f input h)
  from "2.prems" have inp: "input < length h" by (simp split: if_splits)
  from "2.prems" inp obtain h2 where
    h2: "range_h n f input (map fst (h ! input)) (length h) (h @ [[]]) = Some h2"
    and r: "r = length h" "h' = h2"
    by (auto split: option.splits)
  from "2.IH"[OF inp h2, of "length h"] have "length (h @ [[]]) \<le> length h2"
    "take (length h) h2 = take (length h) (h @ [[]])" by simp_all
  then show ?case using r by simp
next
  case (3 n f input result h)
  then show ?case by simp
next
  case (4 n f input key keys result h)
  show ?case
  proof (cases "map_of (h ! input) key")
    case None
    then show ?thesis using "4.IH"(1)[OF None, of h'' L] "4.prems" by simp
  next
    case (Some v)
    show ?thesis
    proof (cases v)
      case (HMap b)
      from "4.prems"(1) Some HMap obtain r1 h1 where
        m: "mapKeys_h n f b h = Some (r1, h1)"
        and rest: "range_h n f input keys result
                     (h1[result := AList.update (f key) (HMap r1) (h1 ! result)]) = Some h''"
        by (auto split: option.splits)
      from "4.IH"(2)[OF Some HMap m] have h1: "length h < length h1" "take (length h) h1 = h"
        by simp_all
      have res: "result < length (h1[result := AList.update (f key) (HMap r1) (h1 ! result)])"
        using h1 "4.prems"(3) by simp
      from "4.IH"(3)[OF Some HMap m refl rest "4.prems"(2) res]
      have "length h1 \<le> length h''" "take L h'' = take L h1"
        using "4.prems"(2) by (simp_all add: take_update_cancel)
      moreover have "take L h1 = take L (take (length h) h1)"
        using "4.prems"(2,3) by (simp add: min_def)
      ultimately show ?thesis using h1 by simp
    next
      case (HSlice vs)
      from "4.prems"(1) Some HSlice have
        rest: "range_h n f input keys result
                 (h[result := AList.update (f key) (HSlice vs) (h ! result)]) = Some h''"
        by simp
      from "4.IH"(4)[OF Some HSlice rest "4.prems"(2)] "4.prems"(2,3)
      show ?thesis by (simp add: take_update_cancel)
    next
      case (HScalar x)
      from "4.prems"(1) Some HScalar have
        rest: "range_h n f input keys result
                 (h[result := AList.update (f key) (HScalar x) (h ! result)]) = Some h''"
        by simp
      from "4.IH"(5)[OF Some HScalar rest "4.prems"(2)] "4.prems"(2,3)
      show ?thesis by (simp add: take_update_cancel)
    qed
  qed
qed

lemma set_update_subset: "set (AList.update k v al) \<subseteq> insert (k, v) (set al)"
  by (induction al) auto

lemma new_refs_fresh_update:
  assumes "new_refs_fresh L h" and "\<And>b. v = HMap b \<Longrightarrow> L \<le> b"
  shows "new_refs_fresh L (h[result := AList.update k v (h ! result)])"
  unfolding new_refs_fresh_def
proof (intro allI impI)
  fix a k' b
  assume a: "L \<le> a \<and> a < length (h[result := AList.update k v (h ! result)])"
    and e: "(k', HMap b) \<in> set (h[result := AList.update k v (h ! result)] ! a)"
  show "L \<le> b"
  proof (cases "a = result")
    case True
    then have "(k', HMap b) \<in> set (AList.update k v (h ! result))" using e a by simp
    then have "(k', HMap b) = (k, v) \<or> (k', HMap b) \<in> set (h ! result)"
      using set_update_subset[of k v "h ! result"] by blast
    then show ?thesis using assms a True unfolding new_refs_fresh_def by auto
  next
    case False
    then show ?thesis using assms(1) a e unfolding new_refs_fresh_def by auto
  qed
qed

lemma new_refs_fresh_snoc: "new_refs_fresh L h \<Longrightarrow> new_refs_fresh L (h @ [[]])"
  unfolding new_refs_fresh_def by (auto simp: nth_append less_Suc_eq)

lemma mapKeys_h_fresh:
  "mapKeys_h n f input h = Some (r, h') \<Longrightarrow> new_refs_fresh L h \<Longrightarrow> L \<le> length h \<Longrightarrow>
     new_refs_fresh L h'"
  "range_h n f input keys result h = Some h'' \<Longrightarrow> new_refs_fresh L h \<Longrightarrow> L \<le> length h \<Longrightarrow>
     new_refs_fresh L h''"
proof (induction n f input h and n f input keys result h arbitrary: r h' and h''
    rule: mapKeys_h_range_h.induct)
  case (1 f input h)
  then show ?case by simp
next
  case (2 n f input h)
  from "2.prems" have inp: "input < length h" by (simp split: if_splits)
  from "2.prems" inp obtain h2 where
    h2: "range_h n f input (map fst (h ! input)) (length h) (h @ [[]]) = Some h2"
    and r: "r = length h" "h' = h2"
    by (auto split: option.splits)
  show ?case
    using "2.IH"[OF inp h2 new_refs_fresh_snoc[OF "2.prems"(2)]] "2.prems"(3) r by simp
next
  case (3 n f input result h)
  then show ?case by simp
next
  case (4 n f input key keys result h)
  show ?case
  proof (cases "map_of (h ! input) key")
    case None
    then show ?thesis using "4.IH"(1)[OF None] "4.prems" by simp
  next
    case (Some v)
    show ?thesis
    proof (cases v)
      case (HMap b)
      from "4.prems"(1) Some HMap obtain r1 h1 where
        m: "mapKeys_h n f b h = Some (r1, h1)"
        and rest: "range_h n f input keys result
                     (h1[result := AList.update (f key) (HMap r1) (h1 ! result)]) = Some h''"
        by (auto split: option.splits)
      from mapKeys_h_frame(1)[OF m] have h1: "r1 = length h" "length h < length h1" by simp_all
      have f1: "new_refs_fresh L h1" using "4.IH"(2)[OF Some HMap m "4.prems"(2,3)] .
      have "new_refs_fresh L (h1[result := AList.update (f key) (HMap r1) (h1 ! result)])"
        using f1 h1 "4.prems"(3) by (intro new_refs_fresh_update) simp_all
      then show ?thesis
        using "4.IH"(3)[OF Some HMap m refl rest] h1 "4.prems"(3) by simp
    next
      case (HSlice vs)
      from "4.prems"(1) Some HSlice have
        rest: "range_h n f input keys result
                 (h[result := AList.update (f key) (HSlice vs) (h ! result)]) = Some h''"
        by simp
      have "new_refs_fresh L (h[result := AList.update (f key) (HSlice vs) (h ! result)])"
        using "4.prems"(2) by (intro new_refs_fresh_update) simp_all
      then show ?thesis using "4.IH"(4)[OF Some HSlice rest] "4.prems"(3) by simp
    next
      case (HScalar x)
      from "4.prems"(1) Some HScalar have
        rest: "range_h n f input keys result
                 (h[result := AList.update (f key) (HScalar x) (h ! result)]) = Some h''"
        by simp
      have "new_refs_fresh L (h[result := AList.update (f key) (HScalar x) (h ! result)])"
        using "4.prems"(2) by (intro new_refs_fresh_update) simp_all
      then show ?thesis using "4.IH"(5)[OF Some HScalar rest] "4.prems"(3) by simp
    qed
  qed
qed

lemma acyclic_below_same:
  assumes "acyclic_below rank L h" and "L \<le> length h'" and "take L h' = take L h"
  shows "acyclic_below rank L h'"
proof -
  have "\<And>a. a < L \<Longrightarrow> h' ! a = h ! a"
    using assms(3) by (metis nth_take)
  then have "\<forall>a < L. \<forall>k b. (k, HMap b) \<in> set (h' ! a) \<longrightarrow> b < L \<and> rank b < rank a"
    using assms(1) unfolding acyclic_below_def by metis
  then show ?thesis using assms(2) unfolding acyclic_below_def by blast
qed

lemma mapKeys_h_returns:
  "acyclic_below rank L h \<Longrightarrow> input < L \<Longrightarrow> rank input < n \<Longrightarrow>
     \<exists>r h'. mapKeys_h n f input h = Some (r, h')"
  "acyclic_below rank L h \<Longrightarrow> input < L \<Longrightarrow> rank input \<le> n \<Longrightarrow> L \<le> result \<Longrightarrow>
     result < length h \<Longrightarrow> \<exists>h''. range_h n f input keys result h = Some h''"
proof (induction n f input h and n f input keys result h
    rule: mapKeys_h_range_h.induct)
  case (1 f input h)
  then show ?case by simp
next
  case (2 n f input h)
  have inp: "input < length h" using "2.prems"(1,2) by (simp add: acyclic_below_def)
  have L: "L \<le> length h" using "2.prems"(1) by (simp add: acyclic_below_def)
  have "acyclic_below rank L (h @ [[]])"
    by (rule acyclic_below_same[OF "2.prems"(1)]) (use L in simp_all)
  moreover have "rank input \<le> n" using "2.prems"(3) by simp
  moreover have "length h < length (h @ [[]])" by simp
  ultimately have "\<exists>h2. range_h n f input (map fst (h ! input)) (length h) (h @ [[]]) = Some h2"
    using "2.IH"[OF inp _ "2.prems"(2)] L by blast
  then obtain h2 where "range_h n f input (map fst (h ! input)) (length h) (h @ [[]]) = Some h2" ..
  then show ?case using inp by simp
next
  case (3 n f input result h)
  then show ?case by simp
next
  case (4 n f input key keys result h)
  have L: "L \<le> length h" using "4.prems"(1) by (simp add: acyclic_below_def)
  show ?case
  proof (cases "map_of (h ! input) key")
    case None
    then show ?thesis using "4.IH"(1)[OF None "4.prems"] by simp
  next
    case (Some v)
    show ?thesis
    proof (cases v)
      case (HMap b)
      have "(key, HMap b) \<in> set (h ! input)"
        using Some HMap by (simp add: map_of_SomeD)
      then have b: "b < L" "rank b < rank input"
        using "4.prems"(1,2) unfolding acyclic_below_def by blast+
      then have "rank b < n" using "4.prems"(3) by simp
      from "4.IH"(2)[OF Some HMap "4.prems"(1) b(1) this]
      obtain r1 h1 where m: "mapKeys_h n f b h = Some (r1, h1)" by blast
      from mapKeys_h_frame(1)[OF m] have h1: "length h < length h1" "take (length h) h1 = h" by simp_all
      let ?h2 = "h1[result := AList.update (f key) (HMap r1) (h1 ! result)]"
      have "take L h1 = take L (take (length h) h1)" using L by (simp add: min_def)
      then have t2: "take L ?h2 = take L h"
        using h1 "4.prems"(4) by (simp add: take_update_cancel)
      have a2: "acyclic_below rank L ?h2"
        by (rule acyclic_below_same[OF "4.prems"(1)]) (use L h1 t2 in simp_all)
      have "result < length ?h2" using h1 "4.prems"(5) by simp
      from "4.IH"(3)[OF Some HMap m refl a2 "4.prems"(2,3,4) this]
      show ?thesis using Some HMap m by simp
    next
      case (HSlice vs)
      let ?h2 = "h[result := AList.update (f key) (HSlice vs) (h ! result)]"
      have a2: "acyclic_below rank L ?h2"
        by (rule acyclic_below_same[OF "4.prems"(1)])
          (use "4.prems"(4) L in \<open>simp_all add: take_update_cancel\<close>)
      have "result < length ?h2" using "4.prems"(5) by simp
      from "4.IH"(4)[OF Some HSlice a2 "4.prems"(2,3,4) this]
      show ?thesis using Some HSlice by simp
    next
      case (HScalar x)
      let ?h2 = "h[result := AList.update (f key) (HScalar x) (h ! result)]"
      have a2: "acyclic_below rank L ?h2"
        by (rule acyclic_below_same[OF "4.prems"(1)])
          (use "4.prems"(4) L in \<open>simp_all add: take_update_cancel\<close>)
      have "result < length ?h2" using "4.prems"(5) by simp
      from "4.IH"(5)[OF Some HScalar a2 "4.prems"(2,3,4) this]
      show ?thesis using Some HScalar by simp
    qed
  qed
qed

text \<open>
  C10. The key transform, which is \<open>escapeKeys\<close> with one replacer and \<open>unescapeKeys\<close>
  with the other, does not mutate its argument. Whenever \<open>mapKeys\<close> returns, the map it
  returns is a new object, every map object that existed before the call, the input and
  the maps nested in it among them, is as it was, and the maps held directly in the new
  objects are new objects too. It does return when no map is nested in itself and the
  bound on the recursion exceeds the depth of nesting of the input.
\<close>

theorem mapKeys_h_leaves_input:
  "(\<forall>r h'. mapKeys_h n f input h = Some (r, h') \<longrightarrow>
       r = length h \<and> length h < length h' \<and> take (length h) h' = h
       \<and> (\<forall>a. length h \<le> a \<and> a < length h' \<longrightarrow>
             (\<forall>k b. (k, HMap b) \<in> set (h' ! a) \<longrightarrow> length h \<le> b)))
   \<and> (acyclic_below rank (length h) h \<and> input < length h \<and> rank input < n
        \<longrightarrow> (\<exists>r h'. mapKeys_h n f input h = Some (r, h')))"
proof (intro conjI allI impI)
  fix r h'
  assume m: "mapKeys_h n f input h = Some (r, h')"
  from mapKeys_h_frame(1)[OF m]
  show "r = length h" "length h < length h'" "take (length h) h' = h" by simp_all
  have "new_refs_fresh (length h) h" by (simp add: new_refs_fresh_def)
  from mapKeys_h_fresh(1)[OF m this] have "new_refs_fresh (length h) h'" by simp
  then show "\<And>a k b. length h \<le> a \<and> a < length h' \<Longrightarrow> (k, HMap b) \<in> set (h' ! a)
      \<Longrightarrow> length h \<le> b"
    unfolding new_refs_fresh_def by blast
next
  assume "acyclic_below rank (length h) h \<and> input < length h \<and> rank input < n"
  then show "\<exists>r h'. mapKeys_h n f input h = Some (r, h')"
    using mapKeys_h_returns(1)[of rank "length h" h input n f] by blast
qed

lemma ex_heap_acyclic: "acyclic_below (\<lambda>a. a) (length ex_heap) ex_heap"
  by (auto simp: acyclic_below_def ex_heap_def less_Suc_eq numeral_2_eq_2)

lemma ex_heap_mapKeys_h:
  "mapKeys_h (Suc (Suc 0)) ex_esc (Suc 0) ex_heap
     = Some (2, ex_heap @ [[(''a|b'', HMap 3), (''e'', HSlice [HMap 0])],
                          [(''c|d'', HScalar ''x'')]])"
  by (simp add: ex_heap_def ex_esc_def)

theorem mapKeys_h_leaves_input_witness:
  "mapKeys_h (Suc (Suc 0)) ex_esc (Suc 0) ex_heap
     = Some (2, ex_heap @ [[(''a|b'', HMap 3), (''e'', HSlice [HMap 0])],
                          [(''c|d'', HScalar ''x'')]])
   \<and> take (length ex_heap)
        (ex_heap @ [[(''a|b'', HMap 3), (''e'', HSlice [HMap 0])], [(''c|d'', HScalar ''x'')]])
     = ex_heap
   \<and> (\<exists>r h'. mapKeys_h (Suc (Suc 0)) ex_esc (Suc 0) ex_heap = Some (r, h'))"
proof -
  note r = mapKeys_h_leaves_input[of "Suc (Suc 0)" ex_esc "Suc 0" ex_heap "\<lambda>a. a"]
  have "take (length ex_heap)
        (ex_heap @ [[(''a|b'', HMap 3), (''e'', HSlice [HMap 0])], [(''c|d'', HScalar ''x'')]])
     = ex_heap"
    using r ex_heap_mapKeys_h by blast
  moreover have "\<exists>r h'. mapKeys_h (Suc (Suc 0)) ex_esc (Suc 0) ex_heap = Some (r, h')"
    using r ex_heap_acyclic by (simp add: ex_heap_def)
  ultimately show ?thesis using ex_heap_mapKeys_h by (intro conjI)
qed

end
